theory Spec2Isabelle
  imports Complex_Main "HOL-Library.Sublist" "HOL-Library.AList"
begin

section \<open>Data model\<close>

text \<open>
  The two representations of the converter. Strings are char lists; a character stands
  for the UTF-16 code unit of the same number, so that the strings of the model are the
  JavaScript strings over U+0000 to U+00FF. An optional field
  of a TypeScript interface is an \<open>option\<close>; a field tested for truthiness by the code
  (\<open>if (x.id)\<close>) is truthy when it is present and not the empty string.
  A \<open>LocalizedString\<close> is the list of the entries of the JavaScript object, in the
  order in which \<open>Object.entries\<close> enumerates them.
\<close>

type_synonym NostrTag = "string list"

type_synonym LocalizedString = "(string \<times> string) list"

record Concept =
  concept_id :: "string option"
  concept_type :: "string option"
  prefLabel :: "LocalizedString option"

record Organization =
  org_id :: "string option"
  org_name :: string

record Person =
  person_id :: "string option"
  person_name :: string
  honorificPrefix :: "string option"
  affiliation :: "Organization option"

datatype Agent = IsPerson Person | IsOrganization Organization

record License =
  license_id :: "string option"

record AmbLearningResourceReference =
  ref_id :: string
  ref_type :: "string list option"
  ref_name :: "string option"

record AmbLearningResource =
  amb_id :: "string option"
  amb_type :: "string list"
  amb_name :: "string option"
  creator :: "Agent list option"
  description :: "string option"
  amb_keywords :: "string list option"
  about :: "Concept list option"
  isAccessibleForFree :: "bool option"
  conditionsOfAccess :: "Concept option"
  license :: "License option"
  inLanguage :: "string list option"
  learningResourceType :: "Concept list option"
  audience :: "Concept list option"
  educationalLevel :: "Concept list option"
  dateCreated :: "string option"
  datePublished :: "string option"
  publisher :: "Agent list option"
  image :: "string option"
  hasPart :: "AmbLearningResourceReference list option"
  isPartOf :: "AmbLearningResourceReference list option"
  isBasedOn :: "AmbLearningResourceReference list option"

text \<open>
  A value of the type \<open>number\<close>: not-a-number, one of the two infinities, or a finite
  number. The two zeros are not distinguished; no operation of the converters does.
\<close>

datatype number = NaN | PosInfinity | NegInfinity | Finite real

record ConversionOptions =
  opt_pubkey :: "string option"
  includeRelationships :: "bool option"
  timestamp :: "number option"
  relayHints :: "string list option"

text \<open>
  The \<open>tags\<close> field of an event is \<open>None\<close> when the field is absent or is not an array
  (the unflattener tests for that at run time); the flattener always produces \<open>Some\<close>.
\<close>

record NostrEvent =
  pubkey :: string
  created_at :: number
  kind :: number
  tags :: "NostrTag list option"
  content :: string

datatype ConversionErrorCode =
  INVALID_INPUT | MISSING_REQUIRED_FIELD | INVALID_FORMAT | CONVERSION_FAILED | VALIDATION_FAILED

record ConversionError =
  message :: string
  code :: ConversionErrorCode

section \<open>Helpers of the JavaScript runtime\<close>

definition truthy :: "string option \<Rightarrow> bool" where
  "truthy s = (case s of None \<Rightarrow> False | Some v \<Rightarrow> v \<noteq> [])"

text \<open>The truthiness of a number: \<open>0\<close> and \<open>NaN\<close> are falsy.\<close>

definition truthyNumber :: "number \<Rightarrow> bool" where
  "truthyNumber n = (n \<noteq> NaN \<and> n \<noteq> Finite 0)"

text \<open>
  \<open>String.prototype.toLowerCase\<close>. Below U+0100 the upper-case letters are U+0041 to
  U+005A, U+00C0 to U+00D6 and U+00D8 to U+00DE; the lower-case letter of each is 32
  code points above it.
\<close>

definition lowerChar :: "char \<Rightarrow> char" where
  "lowerChar c =
     (let n = (of_char c :: nat) in
      if (65 \<le> n \<and> n \<le> 90) \<or> (192 \<le> n \<and> n \<le> 214) \<or> (216 \<le> n \<and> n \<le> 222)
      then char_of (n + 32) else c)"

definition toLowerCase :: "string \<Rightarrow> string" where
  "toLowerCase s = map lowerChar s"

definition createTag :: "string \<Rightarrow> string \<Rightarrow> NostrTag" where
  "createTag k v = [k, v]"

text \<open>\<open>if (x) tags.push(createTag(k, x))\<close> for an optional string \<open>x\<close>.\<close>

definition tagIf :: "string \<Rightarrow> string option \<Rightarrow> NostrTag list" where
  "tagIf k x = (case x of None \<Rightarrow> [] | Some v \<Rightarrow> if v \<noteq> [] then [createTag k v] else [])"

text \<open>\<open>if (xs && xs.length > 0) xs.forEach(f)\<close>, each call of \<open>f\<close> pushing some tags.\<close>

definition forEachOpt :: "'a list option \<Rightarrow> ('a \<Rightarrow> NostrTag list) \<Rightarrow> NostrTag list" where
  "forEachOpt xs f = (case xs of None \<Rightarrow> [] | Some ys \<Rightarrow> concat (map f ys))"

section \<open>The flattener\<close>

definition DEFAULT_PUBKEY :: string where
  "DEFAULT_PUBKEY = replicate 64 (CHR ''0'')"

definition agentType :: "Agent \<Rightarrow> string" where
  "agentType a = (case a of IsPerson _ \<Rightarrow> ''Person'' | IsOrganization _ \<Rightarrow> ''Organization'')"

definition agentId :: "Agent \<Rightarrow> string option" where
  "agentId a = (case a of IsPerson p \<Rightarrow> person_id p | IsOrganization g \<Rightarrow> org_id g)"

definition getPersonOrOrgName :: "Agent \<Rightarrow> string" where
  "getPersonOrOrgName a =
     (case a of
        IsPerson p \<Rightarrow>
          (case honorificPrefix p of
             None \<Rightarrow> person_name p
           | Some h \<Rightarrow> if h \<noteq> [] then h @ '' '' @ person_name p else person_name p)
      | IsOrganization g \<Rightarrow> org_name g)"

definition affiliationTags :: "Organization \<Rightarrow> NostrTag list" where
  "affiliationTags g =
     tagIf ''creator:affiliation:name'' (Some (org_name g))
     @ [createTag ''creator:affiliation:type'' ''Organization'']
     @ tagIf ''creator:affiliation:id'' (org_id g)"

definition creatorTags :: "Agent \<Rightarrow> NostrTag list" where
  "creatorTags a =
     [createTag ''creator:name'' (getPersonOrOrgName a),
      createTag ''creator:type'' (agentType a)]
     @ tagIf ''creator:id'' (agentId a)
     @ (case a of
          IsPerson p \<Rightarrow>
            tagIf ''creator:honorificPrefix'' (honorificPrefix p)
            @ (case affiliation p of None \<Rightarrow> [] | Some g \<Rightarrow> affiliationTags g)
        | IsOrganization _ \<Rightarrow> [])"

definition publisherTags :: "Agent \<Rightarrow> NostrTag list" where
  "publisherTags a =
     [createTag ''publisher:name'' (getPersonOrOrgName a),
      createTag ''publisher:type'' (agentType a)]
     @ tagIf ''publisher:id'' (agentId a)"

text \<open>
  The five Concept-valued fields are flattened by five copies of the same code, which
  differ in the base key only.
\<close>

definition conceptTags :: "string \<Rightarrow> Concept \<Rightarrow> NostrTag list" where
  "conceptTags base c =
     tagIf (base @ '':id'') (concept_id c)
     @ (case prefLabel c of
          None \<Rightarrow> []
        | Some entries \<Rightarrow>
            map (\<lambda>(lang, label). createTag (base @ '':prefLabel:'' @ lang) label) entries)
     @ tagIf (base @ '':type'') (concept_type c)"

definition referenceTags :: "string \<Rightarrow> AmbLearningResourceReference \<Rightarrow> NostrTag list" where
  "referenceTags base p =
     [createTag (base @ '':id'') (ref_id p)]
     @ tagIf (base @ '':name'') (ref_name p)
     @ (case ref_type p of None \<Rightarrow> [] | Some ts \<Rightarrow> map (createTag (base @ '':type'')) ts)"

definition basedOnTags :: "AmbLearningResourceReference \<Rightarrow> NostrTag list" where
  "basedOnTags s =
     [createTag ''isBasedOn:id'' (ref_id s)] @ tagIf ''isBasedOn:name'' (ref_name s)"

definition relationshipTags :: "AmbLearningResource \<Rightarrow> NostrTag list" where
  "relationshipTags r =
     forEachOpt (hasPart r) (referenceTags ''hasPart'')
     @ forEachOpt (isPartOf r) (referenceTags ''isPartOf'')
     @ forEachOpt (isBasedOn r) basedOnTags"

text \<open>
  The \<open>d\<close>, \<open>type\<close>, \<open>name\<close>, \<open>description\<close>, \<open>t\<close> and \<open>inLanguage\<close> tags; \<open>ident\<close> and
  \<open>nm\<close> are the id and the name that passed validation.
\<close>

definition coreTags :: "string \<Rightarrow> string \<Rightarrow> AmbLearningResource \<Rightarrow> NostrTag list" where
  "coreTags ident nm r =
     [createTag ''d'' ident]
     @ map (createTag ''type'') (amb_type r)
     @ [createTag ''name'' nm]
     @ tagIf ''description'' (description r)
     @ forEachOpt (amb_keywords r) (\<lambda>keyword. [createTag ''t'' (toLowerCase keyword)])
     @ forEachOpt (inLanguage r) (\<lambda>lang. [createTag ''inLanguage'' lang])"

definition agentBlockTags :: "AmbLearningResource \<Rightarrow> NostrTag list" where
  "agentBlockTags r =
     forEachOpt (creator r) creatorTags
     @ forEachOpt (publisher r) publisherTags"

definition accessTags :: "AmbLearningResource \<Rightarrow> NostrTag list" where
  "accessTags r =
     (case license r of None \<Rightarrow> [] | Some l \<Rightarrow> tagIf ''license:id'' (license_id l))
     @ (case isAccessibleForFree r of
          None \<Rightarrow> []
        | Some b \<Rightarrow> [createTag ''isAccessibleForFree'' (if b then ''true'' else ''false'')])
     @ (case conditionsOfAccess r of None \<Rightarrow> [] | Some c \<Rightarrow> conceptTags ''conditionsOfAccess'' c)"

definition conceptBlockTags :: "AmbLearningResource \<Rightarrow> NostrTag list" where
  "conceptBlockTags r =
     forEachOpt (about r) (conceptTags ''about'')
     @ forEachOpt (educationalLevel r) (conceptTags ''educationalLevel'')
     @ forEachOpt (audience r) (conceptTags ''audience'')
     @ forEachOpt (learningResourceType r) (conceptTags ''learningResourceType'')"

definition trailingTags :: "AmbLearningResource \<Rightarrow> ConversionOptions \<Rightarrow> NostrTag list" where
  "trailingTags r options =
     tagIf ''datePublished'' (datePublished r)
     @ tagIf ''dateCreated'' (dateCreated r)
     @ tagIf ''image'' (image r)
     @ forEachOpt (relayHints options) (\<lambda>relay. [createTag ''r'' relay])"

text \<open>The tags in the order in which the function pushes them.\<close>

definition flattenTags ::
  "string \<Rightarrow> string \<Rightarrow> AmbLearningResource \<Rightarrow> ConversionOptions \<Rightarrow> NostrTag list" where
  "flattenTags ident nm r options =
     coreTags ident nm r @ agentBlockTags r @ accessTags r @ conceptBlockTags r
     @ trailingTags r options
     @ (if includeRelationships options \<noteq> Some False then relationshipTags r else [])"

definition missingId :: ConversionError where
  "missingId = \<lparr>message = ''AMB resource must have an id'', code = MISSING_REQUIRED_FIELD\<rparr>"

definition missingName :: ConversionError where
  "missingName = \<lparr>message = ''AMB resource must have a name'', code = MISSING_REQUIRED_FIELD\<rparr>"

text \<open>
  \<open>options.pubkey || DEFAULT_PUBKEY\<close> and \<open>options.timestamp || now\<close> choose by
  truthiness: an empty pubkey and a timestamp that is 0 or NaN count as absent. The wall
  clock read by \<open>Math.floor(Date.now() / 1000)\<close>, an integer, is the parameter \<open>now\<close>.
\<close>

definition buildEvent ::
  "int \<Rightarrow> ConversionOptions \<Rightarrow> NostrTag list \<Rightarrow> NostrEvent \<times> string list" where
  "buildEvent now options ts =
     (let pk = (case opt_pubkey options of
                  None \<Rightarrow> DEFAULT_PUBKEY
                | Some p \<Rightarrow> if p \<noteq> [] then p else DEFAULT_PUBKEY);
          warnings =
            (if pk = DEFAULT_PUBKEY
             then [''Using default pubkey - should provide a real pubkey in production'']
             else []);
          created = (case timestamp options of
                       None \<Rightarrow> Finite (of_int now)
                     | Some t \<Rightarrow> if truthyNumber t then t else Finite (of_int now))
      in (\<lparr>pubkey = pk, created_at = created, kind = Finite 30142, tags = Some ts,
           content = []\<rparr>,
          warnings))"

text \<open>
  \<open>ambToNostr\<close>: the result is the error, or the event with the list of warnings.
  The resource is typed, so no other exception than the two validation errors arises.
\<close>

definition ambToNostr ::
  "int \<Rightarrow> AmbLearningResource \<Rightarrow> ConversionOptions \<Rightarrow> ConversionError + (NostrEvent \<times> string list)"
where
  "ambToNostr now r options =
     (case amb_id r of
        None \<Rightarrow> Inl missingId
      | Some ident \<Rightarrow>
          if ident = [] then Inl missingId
          else (case amb_name r of
                  None \<Rightarrow> Inl missingName
                | Some nm \<Rightarrow>
                    if nm = [] then Inl missingName
                    else Inr (buildEvent now options (flattenTags ident nm r options))))"

section \<open>The unflattener\<close>

text \<open>
  JSON values of the reconstructed resource. An object is the list of its own
  properties in insertion order, which is the order of their enumeration for the names
  that are not array indices; its prototype is \<open>Object.prototype\<close>.
\<close>

datatype jval = JStr string | JArr "jval list" | JObj "(string \<times> jval) list"

type_synonym jobj = "(string \<times> jval) list"

text \<open>
  The values held by the accumulator \<open>currentObject\<close> of the reconstruction: the code
  stores strings and objects there, never arrays.
\<close>

datatype aval = AStr string | AObj "(string \<times> aval) list"

type_synonym aobj = "(string \<times> aval) list"

primrec toJson :: "aval \<Rightarrow> jval" where
  "toJson (AStr s) = JStr s"
| "toJson (AObj kvs) = JObj (map (map_prod id toJson) kvs)"

definition objectToJson :: "aobj \<Rightarrow> jval" where
  "objectToJson obj = toJson (AObj obj)"

text \<open>
  The two ways in which the reconstruction ends before its last statement. The engine
  raises a TypeError (the module runs in strict mode); or the code reads a member that
  an object or a primitive inherits from a built-in prototype. The built-in prototypes
  and the functions that they hold are objects of the realm, which every later statement
  reads and can change; they are not represented here, and a run that reaches one of
  them has no result in this model. Every run is taken to start in the realm as the
  engine creates it, where the prototypes have the members listed below and no others.
\<close>

datatype js_stop = TypeError | InheritedMember

text \<open>
  The string-named members of \<open>Object.prototype\<close>, of \<open>String.prototype\<close> and of
  \<open>Number.prototype\<close>. A string and a number inherit those of \<open>Object.prototype\<close> too.
\<close>

definition objectPrototypeNames :: "string list" where
  "objectPrototypeNames = [''constructor'', ''__defineGetter__'', ''__defineSetter__'',
     ''hasOwnProperty'', ''__lookupGetter__'', ''__lookupSetter__'', ''isPrototypeOf'',
     ''propertyIsEnumerable'', ''toString'', ''valueOf'', ''__proto__'', ''toLocaleString'']"

definition stringPrototypeNames :: "string list" where
  "stringPrototypeNames = [''length'', ''constructor'', ''anchor'', ''at'', ''big'', ''blink'',
     ''bold'', ''charAt'', ''charCodeAt'', ''codePointAt'', ''concat'', ''endsWith'',
     ''fontcolor'', ''fontsize'', ''fixed'', ''includes'', ''indexOf'', ''isWellFormed'',
     ''italics'', ''lastIndexOf'', ''link'', ''localeCompare'', ''match'', ''matchAll'',
     ''normalize'', ''padEnd'', ''padStart'', ''repeat'', ''replace'', ''replaceAll'',
     ''search'', ''slice'', ''small'', ''split'', ''strike'', ''sub'', ''substr'',
     ''substring'', ''sup'', ''startsWith'', ''toString'', ''toWellFormed'', ''trim'',
     ''trimStart'', ''trimLeft'', ''trimEnd'', ''trimRight'', ''toLocaleLowerCase'',
     ''toLocaleUpperCase'', ''toLowerCase'', ''toUpperCase'', ''valueOf'']"

definition numberPrototypeNames :: "string list" where
  "numberPrototypeNames = [''constructor'', ''toExponential'', ''toFixed'', ''toPrecision'',
     ''toString'', ''valueOf'', ''toLocaleString'']"

text \<open>\<open>key.split(':')\<close> and \<open>parts.join(':')\<close>.\<close>

fun splitColon :: "string \<Rightarrow> string list" where
  "splitColon [] = [[]]"
| "splitColon (c # cs) =
     (if c = CHR '':'' then [] # splitColon cs
      else (case splitColon cs of [] \<Rightarrow> [[c]] | p # ps \<Rightarrow> (c # p) # ps))"

fun joinColon :: "string list \<Rightarrow> string" where
  "joinColon [] = []"
| "joinColon [p] = p"
| "joinColon (p # q # ps) = p @ '':'' @ joinColon (q # ps)"

text \<open>\<open>key.split(':')[0]\<close>.\<close>

definition baseKeyOf :: "string \<Rightarrow> string" where
  "baseKeyOf key = (case splitColon key of [] \<Rightarrow> [] | p # _ \<Rightarrow> p)"

text \<open>
  A tag that both passes of \<open>unflattenTags\<close> look at has at least two elements and a
  non-empty key; of its values only \<open>values[0]\<close> is ever read. A collected tag
  \<open>{key, values}\<close> is therefore the pair of the key and of \<open>values[0]\<close>.
\<close>

type_synonym RelatedTag = "string \<times> string"

subsection \<open>First pass: id, keywords and the keys of the groups\<close>

text \<open>
  The lists of values held in the Map \<open>tagGroups\<close> are never read: the second pass
  iterates over its keys, in insertion order, and collects the tags again from the
  event. The Map is modelled by the list of its keys.
\<close>

record FirstPass =
  fp_result :: jobj
  fp_keywords :: "string list"
  fp_groups :: "string list"

definition groupTag :: "NostrTag \<Rightarrow> FirstPass \<Rightarrow> FirstPass" where
  "groupTag tag st =
     (case tag of
        key # v # _ \<Rightarrow>
          if key = [] then st
          else if key = ''d'' \<and> v \<noteq> [] then st\<lparr>fp_result := AList.update ''id'' (JStr v) (fp_result st)\<rparr>
          else if key = ''t'' \<and> v \<noteq> [] then st\<lparr>fp_keywords := fp_keywords st @ [v]\<rparr>
          else if key \<in> set (fp_groups st) then st
          else st\<lparr>fp_groups := fp_groups st @ [key]\<rparr>
      | _ \<Rightarrow> st)"

definition AMB_CONTEXT :: string where
  "AMB_CONTEXT = ''https://w3id.org/kim/amb/context.jsonld''"

definition initialResult :: "string \<Rightarrow> jobj" where
  "initialResult defaultLanguage =
     [(''@context'', JArr [JStr AMB_CONTEXT, JObj [(''@language'', JStr defaultLanguage)]])]"

definition firstPass :: "NostrTag list \<Rightarrow> string \<Rightarrow> FirstPass" where
  "firstPass ts defaultLanguage =
     (let st = fold groupTag ts
                 \<lparr>fp_result = initialResult defaultLanguage, fp_keywords = [], fp_groups = []\<rparr>
      in if fp_keywords st \<noteq> []
         then st\<lparr>fp_result := AList.update ''keywords'' (JArr (map JStr (fp_keywords st))) (fp_result st)\<rparr>
         else st)"

subsection \<open>Reconstruction of nested objects\<close>

text \<open>
  Where the variable \<open>target\<close> points: at the object reached from \<open>currentObject\<close> by a
  path of property names, at a string primitive, or at a number (the \<open>length\<close> of a
  string). The own properties of a string are its indices and \<open>length\<close>.
\<close>

datatype target = TObj "string list" | TStr string | TNum nat

fun getObj :: "aobj \<Rightarrow> string list \<Rightarrow> aobj option" where
  "getObj obj [] = Some obj"
| "getObj obj (k # ks) = (case map_of obj k of Some (AObj sub) \<Rightarrow> getObj sub ks | _ \<Rightarrow> None)"

fun setProp :: "aobj \<Rightarrow> string list \<Rightarrow> string \<Rightarrow> aval \<Rightarrow> aobj" where
  "setProp obj [] k x = AList.update k x obj"
| "setProp obj (p # ps) k x =
     (case map_of obj p of
        Some (AObj sub) \<Rightarrow> AList.update p (AObj (setProp sub ps k x)) obj
      | _ \<Rightarrow> obj)"

definition propAt :: "aobj \<Rightarrow> string list \<Rightarrow> string \<Rightarrow> aval option" where
  "propAt cur path k = (case getObj cur path of None \<Rightarrow> None | Some obj \<Rightarrow> map_of obj k)"

definition isDigit :: "char \<Rightarrow> bool" where
  "isDigit c = (48 \<le> (of_char c :: nat) \<and> (of_char c :: nat) \<le> 57)"

definition parseNat :: "string \<Rightarrow> nat" where
  "parseNat s = foldl (\<lambda>n c. 10 * n + ((of_char c :: nat) - 48)) 0 s"

text \<open>The index that the property name \<open>k\<close> denotes in the string \<open>s\<close>, if it is one.\<close>

definition stringIndex :: "string \<Rightarrow> string \<Rightarrow> nat option" where
  "stringIndex s k =
     (case k of
        [] \<Rightarrow> None
      | c # cs \<Rightarrow>
          if list_all isDigit k \<and> (c \<noteq> CHR ''0'' \<or> cs = []) \<and> parseNat k < length s
          then Some (parseNat k) else None)"

text \<open>
  The navigation loop over the intermediate segments \<open>parts[1 .. length - 2]\<close>:
  \<open>if (part) { if (!target[part]) target[part] = {}; target = target[part]; }\<close>.
  The read \<open>target[part]\<close> finds an own property first. When there is none and the
  prototype of the target has a member of that name, the read gives that member, a
  function or a prototype, which is where the model ends. When no prototype has it, the
  read gives \<open>undefined\<close> and the code creates the property: on an object this
  succeeds, on a primitive it raises a TypeError in strict mode.
\<close>

fun navigate :: "aobj \<Rightarrow> target \<Rightarrow> string list \<Rightarrow> js_stop + (aobj \<times> target)" where
  "navigate cur t [] = Inr (cur, t)"
| "navigate cur t (part # ps) =
     (if part = [] then navigate cur t ps
      else (case t of
              TObj path \<Rightarrow>
                (case propAt cur path part of
                   Some (AObj _) \<Rightarrow> navigate cur (TObj (path @ [part])) ps
                 | Some (AStr s) \<Rightarrow>
                     if s \<noteq> [] then navigate cur (TStr s) ps
                     else navigate (setProp cur path part (AObj [])) (TObj (path @ [part])) ps
                 | None \<Rightarrow>
                     if part \<in> set objectPrototypeNames then Inl InheritedMember
                     else navigate (setProp cur path part (AObj [])) (TObj (path @ [part])) ps)
            | TStr s \<Rightarrow>
                if part = ''length'' then
                  (if s \<noteq> [] then navigate cur (TNum (length s)) ps else Inl TypeError)
                else (case stringIndex s part of
                        Some i \<Rightarrow> navigate cur (TStr [s ! i]) ps
                      | None \<Rightarrow>
                          if part \<in> set (stringPrototypeNames @ objectPrototypeNames)
                          then Inl InheritedMember else Inl TypeError)
            | TNum _ \<Rightarrow>
                if part \<in> set (numberPrototypeNames @ objectPrototypeNames)
                then Inl InheritedMember else Inl TypeError))"

text \<open>
  \<open>target.hasOwnProperty(k)\<close>. The method is looked up on the target like any member:
  an own property \<open>hasOwnProperty\<close> of an object shadows the method of
  \<open>Object.prototype\<close>, and since it holds a string or an object the call raises a
  TypeError. A primitive has no such own property.
\<close>

definition hasOwnProperty :: "aobj \<Rightarrow> target \<Rightarrow> string \<Rightarrow> js_stop + bool" where
  "hasOwnProperty cur t k =
     (case t of
        TObj path \<Rightarrow>
          if propAt cur path ''hasOwnProperty'' \<noteq> None then Inl TypeError
          else Inr (propAt cur path k \<noteq> None)
      | TStr s \<Rightarrow> Inr (k = ''length'' \<or> stringIndex s k \<noteq> None)
      | TNum _ \<Rightarrow> Inr False)"

text \<open>
  \<open>target[k] = x\<close>. On an object it creates or overwrites the own property \<open>k\<close>;
  but for the key \<open>__proto__\<close>, when the object does not own it, the assignment calls
  the setter of \<open>Object.prototype\<close>, which ignores a string and makes an object the
  prototype of the target. On a primitive that setter returns without effect, and every
  other assignment raises a TypeError in strict mode.
\<close>

definition assign :: "aobj \<Rightarrow> target \<Rightarrow> string \<Rightarrow> aval \<Rightarrow> js_stop + aobj" where
  "assign cur t k x =
     (case t of
        TObj path \<Rightarrow>
          if k = ''__proto__'' \<and> propAt cur path k = None
          then (case x of AStr _ \<Rightarrow> Inr cur | AObj _ \<Rightarrow> Inl InheritedMember)
          else Inr (setProp cur path k x)
      | _ \<Rightarrow> if k = ''__proto__'' then Inr cur else Inl TypeError)"

text \<open>The truthiness of \<open>target.prefLabel\<close>.\<close>

definition truthyProp :: "aobj \<Rightarrow> target \<Rightarrow> string \<Rightarrow> bool" where
  "truthyProp cur t k =
     (case t of
        TObj path \<Rightarrow>
          (case propAt cur path k of None \<Rightarrow> False | Some (AStr s) \<Rightarrow> s \<noteq> [] | Some (AObj _) \<Rightarrow> True)
      | _ \<Rightarrow> False)"

text \<open>
  \<open>tags.find((t, idx) => t.key === k && idx > currentIndex - 2 && idx < currentIndex + 2)\<close>:
  the first collected tag with key \<open>k\<close> at most one position away from \<open>currentIndex\<close>.
\<close>

definition findLangTag :: "RelatedTag list \<Rightarrow> nat \<Rightarrow> string \<Rightarrow> RelatedTag option" where
  "findLangTag ts currentIndex k =
     map_option snd
       (find (\<lambda>(idx, t). fst t = k \<and> int idx > int currentIndex - 2 \<and> int idx < int currentIndex + 2)
          (enumerate 0 ts))"

text \<open>The intermediate segments \<open>parts[1 .. length - 2]\<close> and the final one.\<close>

definition innerParts :: "string list \<Rightarrow> string list" where
  "innerParts parts = butlast (tl parts)"

definition finalPart :: "string list \<Rightarrow> string" where
  "finalPart parts = (case rev parts of [] \<Rightarrow> [] | p # _ \<Rightarrow> p)"

text \<open>
  The decision to start a new object, and the navigation again in the fresh object.
  The state of the loop is the list \<open>objects\<close> with \<open>currentObject\<close>.
\<close>

definition shouldStartNewObject :: "aobj \<Rightarrow> target \<Rightarrow> string \<Rightarrow> js_stop + bool" where
  "shouldStartNewObject cur t finalKey =
     (if cur = [] then Inr False
      else (case (if finalKey = ''id'' then hasOwnProperty cur t ''id'' else Inr False) of
              Inl e \<Rightarrow> Inl e
            | Inr True \<Rightarrow> Inr True
            | Inr False \<Rightarrow> hasOwnProperty cur t finalKey))"

definition boundary ::
  "aobj list \<Rightarrow> aobj \<Rightarrow> target \<Rightarrow> string list \<Rightarrow> js_stop + (aobj list \<times> aobj \<times> target)" where
  "boundary objects cur t parts =
     (case shouldStartNewObject cur t (finalPart parts) of
        Inl e \<Rightarrow> Inl e
      | Inr True \<Rightarrow>
          (case navigate [] (TObj []) (innerParts parts) of
             Inl e \<Rightarrow> Inl e
           | Inr (cur', t') \<Rightarrow> Inr (objects @ [cur], cur', t'))
      | Inr False \<Rightarrow> Inr (objects, cur, t))"

definition writeLeaf ::
  "RelatedTag list \<Rightarrow> nat \<Rightarrow> string list \<Rightarrow> string \<Rightarrow> aobj \<Rightarrow> target \<Rightarrow> js_stop + aobj" where
  "writeLeaf ts currentIndex parts v cur t =
     (let finalKey = finalPart parts in
      if finalKey = ''prefLabel'' then
        (case findLangTag ts currentIndex (joinColon (butlast parts @ [''inLanguage''])) of
           Some (_, lang) \<Rightarrow>
             if lang \<noteq> [] then assign cur t finalKey (AObj [(lang, AStr v)])
             else assign cur t finalKey (AStr v)
         | None \<Rightarrow> assign cur t finalKey (AStr v))
      else if finalKey = ''inLanguage'' \<and> truthyProp cur t ''prefLabel'' then Inr cur
      else assign cur t finalKey (AStr v))"

text \<open>The body of the loop for the collected tag at position \<open>currentIndex\<close>.\<close>

definition processTag ::
  "RelatedTag list \<Rightarrow> nat \<Rightarrow> RelatedTag \<Rightarrow> aobj list \<times> aobj \<Rightarrow> js_stop + (aobj list \<times> aobj)" where
  "processTag ts currentIndex tag st =
     (let parts = splitColon (fst tag); v = snd tag in
      if finalPart parts = [] \<or> v = [] then Inr st
      else (case navigate (snd st) (TObj []) (innerParts parts) of
              Inl e \<Rightarrow> Inl e
            | Inr (cur, t) \<Rightarrow>
                (case boundary (fst st) cur t parts of
                   Inl e \<Rightarrow> Inl e
                 | Inr (objects, cur', t') \<Rightarrow>
                     (case writeLeaf ts currentIndex parts v cur' t' of
                        Inl e \<Rightarrow> Inl e
                      | Inr cur'' \<Rightarrow> Inr (objects, cur'')))))"

fun objectLoop ::
  "RelatedTag list \<Rightarrow> RelatedTag list \<Rightarrow> nat \<Rightarrow> aobj list \<times> aobj \<Rightarrow> js_stop + (aobj list \<times> aobj)"
where
  "objectLoop ts [] i st = Inr st"
| "objectLoop ts (tag # rest) i st =
     (case processTag ts i tag st of
        Inl e \<Rightarrow> Inl e
      | Inr st' \<Rightarrow> objectLoop ts rest (Suc i) st')"

text \<open>The objects that the loop has produced, the last accumulator included.\<close>

definition collectObjects :: "RelatedTag list \<Rightarrow> js_stop + aobj list" where
  "collectObjects ts =
     (case objectLoop ts ts 0 ([], []) of
        Inl e \<Rightarrow> Inl e
      | Inr (objects, cur) \<Rightarrow> Inr (if cur \<noteq> [] then objects @ [cur] else objects))"

definition reconstructNestedObjects :: "RelatedTag list \<Rightarrow> js_stop + jval" where
  "reconstructNestedObjects ts =
     (case collectObjects ts of
        Inl e \<Rightarrow> Inl e
      | Inr objects \<Rightarrow>
          Inr (case objects of
                 [obj] \<Rightarrow> objectToJson obj
               | _ \<Rightarrow> JArr (map objectToJson objects)))"

definition reconstructProperty :: "RelatedTag list \<Rightarrow> js_stop + jval" where
  "reconstructProperty ts =
     (if \<exists>t \<in> set ts. CHR '':'' \<in> set (fst t) then reconstructNestedObjects ts
      else Inr (case ts of
                  [t] \<Rightarrow> JStr (snd t)
                | _ \<Rightarrow> JArr (map (\<lambda>t. JStr (snd t)) ts)))"

subsection \<open>Second pass: one property for each base key\<close>

text \<open>The inner loop that collects, in the order of the event, the tags of a group.\<close>

fun relatedTags :: "NostrTag list \<Rightarrow> string \<Rightarrow> string \<Rightarrow> RelatedTag list" where
  "relatedTags [] key baseKey = []"
| "relatedTags (tag # rest) key baseKey =
     (case tag of
        tagKey # v # _ \<Rightarrow>
          if tagKey = [] then relatedTags rest key baseKey
          else if tagKey = ''d'' \<or> tagKey = ''t'' then relatedTags rest key baseKey
          else if tagKey = key \<or> prefix (baseKey @ '':'') tagKey
               then (tagKey, v) # relatedTags rest key baseKey
               else relatedTags rest key baseKey
      | _ \<Rightarrow> relatedTags rest key baseKey)"

definition arrayFields :: "string list" where
  "arrayFields = [''type'', ''inLanguage'', ''about'', ''creator'', ''contributor'',
                  ''learningResourceType'', ''audience'', ''publisher'', ''funder'']"

text \<open>\<open>arrayFields.includes(baseKey) ? (Array.isArray(value) ? value : [value]) : value\<close>.\<close>

definition coerceArray :: "string \<Rightarrow> jval \<Rightarrow> jval" where
  "coerceArray baseKey v =
     (if baseKey \<in> set arrayFields
      then (case v of JArr _ \<Rightarrow> v | _ \<Rightarrow> JArr [v])
      else v)"

text \<open>
  \<open>result[baseKey] = value\<close>. For the base key \<open>__proto__\<close> the assignment calls the
  setter of \<open>Object.prototype\<close>: it ignores a string, and it makes an object or an array
  the prototype of the result, through which the later reads of the result would go.
\<close>

definition assignResult :: "jobj \<Rightarrow> string \<Rightarrow> jval \<Rightarrow> js_stop + jobj" where
  "assignResult result baseKey v =
     (if baseKey = ''__proto__''
      then (case v of JStr _ \<Rightarrow> Inr result | _ \<Rightarrow> Inl InheritedMember)
      else Inr (AList.update baseKey v result))"

text \<open>The state of the second pass: the set \<open>processedKeys\<close> and the result object.\<close>

definition processGroup ::
  "NostrTag list \<Rightarrow> string \<Rightarrow> string list \<times> jobj \<Rightarrow> js_stop + (string list \<times> jobj)" where
  "processGroup ts key st =
     (if key \<in> set (fst st) then Inr st
      else let baseKey = baseKeyOf key in
        if baseKey = [] then Inr st
        else let related = relatedTags ts key baseKey in
          (case reconstructProperty related of
             Inl e \<Rightarrow> Inl e
           | Inr v \<Rightarrow>
               (case assignResult (snd st) baseKey (coerceArray baseKey v) of
                  Inl e \<Rightarrow> Inl e
                | Inr result \<Rightarrow> Inr (fst st @ map fst related, result))))"

fun processGroups ::
  "NostrTag list \<Rightarrow> string list \<Rightarrow> string list \<times> jobj \<Rightarrow> js_stop + (string list \<times> jobj)" where
  "processGroups ts [] st = Inr st"
| "processGroups ts (key # keys) st =
     (case processGroup ts key st of
        Inl e \<Rightarrow> Inl e
      | Inr st' \<Rightarrow> processGroups ts keys st')"

definition unflattenTags :: "NostrTag list \<Rightarrow> string \<Rightarrow> js_stop + jobj" where
  "unflattenTags ts defaultLanguage =
     (let fp = firstPass ts defaultLanguage in
      case processGroups ts (fp_groups fp) ([], fp_result fp) of
        Inl e \<Rightarrow> Inl e
      | Inr (_, result) \<Rightarrow> Inr result)"

subsection \<open>The entry point\<close>

definition invalidKind :: ConversionError where
  "invalidKind = \<lparr>message = ''Invalid event kind. Expected 30142 for AMB events.'',
                   code = INVALID_FORMAT\<rparr>"

definition invalidTags :: ConversionError where
  "invalidTags = \<lparr>message = ''Event must have a tags array'', code = INVALID_FORMAT\<rparr>"

definition missingField :: "string \<Rightarrow> ConversionError" where
  "missingField what = \<lparr>message = ''Missing required field: '' @ what,
                         code = MISSING_REQUIRED_FIELD\<rparr>"

text \<open>
  The error built in the \<open>catch\<close> clause. Its message is the prefix followed by the
  text of the caught exception, which the engine chooses and which is not modelled.
\<close>

definition conversionFailed :: ConversionError where
  "conversionFailed = \<lparr>message = ''Conversion failed: '', code = CONVERSION_FAILED\<rparr>"

definition truthyValue :: "jval option \<Rightarrow> bool" where
  "truthyValue v = (case v of None \<Rightarrow> False | Some (JStr s) \<Rightarrow> s \<noteq> [] | Some _ \<Rightarrow> True)"

definition nonEmptyArray :: "jval option \<Rightarrow> bool" where
  "nonEmptyArray v = (case v of Some (JArr xs) \<Rightarrow> xs \<noteq> [] | _ \<Rightarrow> False)"

text \<open>
  \<open>nostrToAmb\<close>; \<open>defaultLanguage\<close> is \<open>options?.defaultLanguage\<close>, and
  \<open>languageOrDefault\<close> is \<open>options?.defaultLanguage || 'de'\<close>. The test
  \<open>!event.kind || event.kind !== 30142\<close> is the test that the kind is not 30142.
  The result is \<open>None\<close> for a run that reads an inherited member. In every other run
  the prototype of the reconstructed object is \<open>Object.prototype\<close>, unchanged, which
  has no member \<open>id\<close>, \<open>name\<close> or \<open>type\<close>: the three tests read own properties.
\<close>

definition languageOrDefault :: "string option \<Rightarrow> string" where
  "languageOrDefault defaultLanguage =
     (case defaultLanguage of None \<Rightarrow> ''de'' | Some l \<Rightarrow> if l \<noteq> [] then l else ''de'')"

text \<open>
  The tests of the required fields after the reconstruction: \<open>!amb.id\<close>, then
  \<open>!amb.name\<close>, then \<open>!amb.type || !Array.isArray(amb.type) || amb.type.length === 0\<close>.
\<close>

definition validateAmb :: "jobj \<Rightarrow> ConversionError + jobj" where
  "validateAmb amb =
     (if \<not> truthyValue (map_of amb ''id'') then Inl (missingField ''id (d tag)'')
      else if \<not> truthyValue (map_of amb ''name'') then Inl (missingField ''name'')
      else if \<not> nonEmptyArray (map_of amb ''type'') then Inl (missingField ''type'')
      else Inr amb)"

definition nostrToAmb :: "NostrEvent \<Rightarrow> string option \<Rightarrow> (ConversionError + jobj) option" where
  "nostrToAmb event defaultLanguage =
     (if kind event \<noteq> Finite 30142 then Some (Inl invalidKind)
      else (case tags event of
              None \<Rightarrow> Some (Inl invalidTags)
            | Some ts \<Rightarrow>
                (case unflattenTags ts (languageOrDefault defaultLanguage) of
                   Inl TypeError \<Rightarrow> Some (Inl conversionFailed)
                 | Inl InheritedMember \<Rightarrow> None
                 | Inr amb \<Rightarrow> Some (validateAmb amb))))"

text \<open>An event of the AMB kind with the given tags.\<close>

definition eventWithTags :: "NostrTag list \<Rightarrow> NostrEvent" where
  "eventWithTags ts = \<lparr>pubkey = ''test-pubkey'', created_at = Finite 123456, kind = Finite 30142,
                        tags = Some ts, content = []\<rparr>"

section \<open>Definitions for the statements\<close>

text \<open>
  The values of the \<open>d\<close> tags that the first pass assigns to \<open>id\<close>, in the order of the
  event, and the keys of the tags that have at least two elements.
\<close>

definition dTagValues :: "NostrTag list \<Rightarrow> string list" where
  "dTagValues ts =
     List.map_filter
       (\<lambda>tag. case tag of k # v # _ \<Rightarrow> if k = ''d'' \<and> v \<noteq> [] then Some v else None | _ \<Rightarrow> None) ts"

definition tagKeys :: "NostrTag list \<Rightarrow> string list" where
  "tagKeys ts = List.map_filter (\<lambda>tag. case tag of k # v # _ \<Rightarrow> Some k | _ \<Rightarrow> None) ts"

definition twoIdsTags :: "NostrTag list" where
  "twoIdsTags = [[''d'', ''first''], [''d'', ''second''], [''name'', ''N''],
                 [''type'', ''LearningResource'']]"

definition twoIdsAmb :: jobj where
  "twoIdsAmb = [(''@context'', JArr [JStr AMB_CONTEXT, JObj [(''@language'', JStr ''de'')]]),
                (''id'', JStr ''second''), (''name'', JStr ''N''),
                (''type'', JArr [JStr ''LearningResource''])]"

text \<open>Tags in which the path \<open>a:b:c\<close> leads through the string stored by \<open>a:b\<close>.\<close>

definition stringPathTags :: "NostrTag list" where
  "stringPathTags = [[''d'', ''x''], [''name'', ''N''], [''type'', ''LearningResource''],
                     [''a:b'', ''s''], [''a:b:c'', ''v'']]"

definition creatorPairTags :: "(string \<times> string) list \<Rightarrow> RelatedTag list" where
  "creatorPairTags xs = concat (map (\<lambda>(n, t). [(''creator:name'', n), (''creator:type'', t)]) xs)"

definition creatorObject :: "string \<times> string \<Rightarrow> aobj" where
  "creatorObject x = [(''name'', AStr (fst x)), (''type'', AStr (snd x))]"

definition twoCreators :: "(string \<times> string) list" where
  "twoCreators = [(''John Doe'', ''Person''), (''Jane Smith'', ''Person'')]"

definition twoCreatorsEvent :: "NostrTag list" where
  "twoCreatorsEvent = [[''d'', ''multi-creator-resource''], [''name'', ''Multi Creator Resource''],
     [''type'', ''LearningResource''], [''creator:name'', ''John Doe''],
     [''creator:type'', ''Person''], [''creator:name'', ''Jane Smith''],
     [''creator:type'', ''Person'']]"

definition emptyLanguageTags :: "RelatedTag list" where
  "emptyLanguageTags = [(''a:inLanguage'', []), (''a:prefLabel'', ''L''), (''a:inLanguage'', ''de'')]"

definition pairedLabelTags :: "RelatedTag list" where
  "pairedLabelTags = [(''about:prefLabel'', ''Mathematics''), (''about:inLanguage'', ''en'')]"

text \<open>
  The tag at position \<open>j\<close> is a language sibling of the tag \<open>key\<close> at position \<open>i\<close>: its
  key is the parent path of \<open>key\<close> followed by \<open>inLanguage\<close>, and it is at most one
  position away. \<open>tags.find\<close> returns the first one.
\<close>

definition languageSibling :: "RelatedTag list \<Rightarrow> nat \<Rightarrow> string \<Rightarrow> nat \<Rightarrow> bool" where
  "languageSibling ts i key j =
     (j < length ts \<and> fst (ts ! j) = joinColon (butlast (splitColon key) @ [''inLanguage''])
      \<and> int i - 2 < int j \<and> int j < int i + 2)"

definition firstLanguageSibling :: "RelatedTag list \<Rightarrow> nat \<Rightarrow> string \<Rightarrow> nat \<Rightarrow> bool" where
  "firstLanguageSibling ts i key j =
     (languageSibling ts i key j \<and> (\<forall>j' < j. \<not> languageSibling ts i key j'))"

definition groupValue :: "string \<Rightarrow> RelatedTag list \<Rightarrow> jval option" where
  "groupValue b rel =
     (case reconstructProperty rel of Inl _ \<Rightarrow> None | Inr v \<Rightarrow> Some (coerceArray b v))"

text \<open>
  The names of the members of the built-in prototypes, and the events in whose tag keys
  no segment is one of them: their reconstruction reads own properties only.
\<close>

definition inheritedNames :: "string list" where
  "inheritedNames = objectPrototypeNames @ stringPrototypeNames @ numberPrototypeNames"

definition ownNames :: "NostrTag list \<Rightarrow> bool" where
  "ownNames ts = (\<forall>k \<in> set (tagKeys ts). \<forall>seg \<in> set (splitColon k). seg \<notin> set inheritedNames)"

text \<open>A tag is a relationship tag when its key starts with one of the three prefixes.\<close>

definition isRelationshipTag :: "NostrTag \<Rightarrow> bool" where
  "isRelationshipTag t =
     (case t of
        [] \<Rightarrow> False
      | k # _ \<Rightarrow> prefix ''hasPart:'' k \<or> prefix ''isPartOf:'' k \<or> prefix ''isBasedOn:'' k)"

text \<open>A resource with the three required fields only, and the empty options.\<close>

definition minimalResource :: AmbLearningResource where
  "minimalResource =
     \<lparr>amb_id = Some ''https://example.org/c1'', amb_type = [''LearningResource'', ''Course''],
      amb_name = Some ''X'', creator = None, description = None, amb_keywords = None,
      about = None, isAccessibleForFree = None, conditionsOfAccess = None, license = None,
      inLanguage = None, learningResourceType = None, audience = None,
      educationalLevel = None, dateCreated = None, datePublished = None, publisher = None,
      image = None, hasPart = None, isPartOf = None, isBasedOn = None\<rparr>"

definition noOptions :: ConversionOptions where
  "noOptions = \<lparr>opt_pubkey = None, includeRelationships = None, timestamp = None,
                 relayHints = None\<rparr>"

text \<open>A resource with one entry in each of the three relationship fields.\<close>

definition relationResource :: AmbLearningResource where
  "relationResource =
     minimalResource
       \<lparr>hasPart := Some [\<lparr>ref_id = ''https://example.org/p1'', ref_type = Some [''LearningResource''],
                          ref_name = Some ''Part 1''\<rparr>],
        isPartOf := Some [\<lparr>ref_id = ''https://example.org/s1'', ref_type = None, ref_name = None\<rparr>],
        isBasedOn := Some [\<lparr>ref_id = ''https://example.org/b1'', ref_type = None,
                            ref_name = Some ''Source''\<rparr>]\<rparr>"

text \<open>
  The names under which the flattener nests an object inside an object. A key is safe
  when none of its segments is the name of a member of \<open>Object.prototype\<close>, a path of
  one or two segments does not end in a name for nested objects, and a path of three
  segments passes through one: then no path leads through a string, and no read finds
  an inherited member.
\<close>

definition intermediateNames :: "string list" where
  "intermediateNames = [''affiliation'', ''prefLabel'']"

definition unsafeLeaves :: "string list" where
  "unsafeLeaves = intermediateNames @ objectPrototypeNames"

definition safeKey :: "string \<Rightarrow> bool" where
  "safeKey k =
     (case splitColon k of
        [a] \<Rightarrow> a \<notin> set unsafeLeaves
      | [a, leaf] \<Rightarrow> a \<notin> set objectPrototypeNames \<and> leaf \<notin> set unsafeLeaves
      | [a, m, leaf] \<Rightarrow>
          a \<notin> set objectPrototypeNames \<and> m \<in> set intermediateNames
          \<and> leaf \<notin> set objectPrototypeNames
      | _ \<Rightarrow> False)"

text \<open>
  In the accumulator no name for nested objects holds a string, and neither the
  accumulator nor an object nested in it has an own property \<open>hasOwnProperty\<close>.
\<close>

definition objectsOnly :: "aobj \<Rightarrow> bool" where
  "objectsOnly cur =
     ((\<forall>m \<in> set intermediateNames. \<forall>s. map_of cur m \<noteq> Some (AStr s))
      \<and> map_of cur ''hasOwnProperty'' = None
      \<and> (\<forall>m \<in> set intermediateNames. \<forall>sub.
            map_of cur m = Some (AObj sub) \<longrightarrow> map_of sub ''hasOwnProperty'' = None))"

text \<open>All keys of the well-formed tags of a list satisfy a property.\<close>

definition allKeys :: "(string \<Rightarrow> bool) \<Rightarrow> NostrTag list \<Rightarrow> bool" where
  "allKeys Q ts = (\<forall>k \<in> set (tagKeys ts). Q k)"

text \<open>A key is safe and its base key is one of the given ones.\<close>

definition keyOf :: "string list \<Rightarrow> string \<Rightarrow> bool" where
  "keyOf bases k = (safeKey k \<and> baseKeyOf k \<in> set bases)"

text \<open>
  The language codes of a label contain no colon and are not names of members of
  \<open>Object.prototype\<close>.
\<close>

definition plainConcept :: "Concept \<Rightarrow> bool" where
  "plainConcept c =
     (case prefLabel c of
        None \<Rightarrow> True
      | Some entries \<Rightarrow>
          \<forall>l \<in> set (map fst entries). CHR '':'' \<notin> set l \<and> l \<notin> set objectPrototypeNames)"

definition conceptsOf :: "AmbLearningResource \<Rightarrow> Concept list" where
  "conceptsOf r =
     (case conditionsOfAccess r of None \<Rightarrow> [] | Some c \<Rightarrow> [c])
     @ (case about r of None \<Rightarrow> [] | Some cs \<Rightarrow> cs)
     @ (case educationalLevel r of None \<Rightarrow> [] | Some cs \<Rightarrow> cs)
     @ (case audience r of None \<Rightarrow> [] | Some cs \<Rightarrow> cs)
     @ (case learningResourceType r of None \<Rightarrow> [] | Some cs \<Rightarrow> cs)"

definition plainLanguages :: "AmbLearningResource \<Rightarrow> bool" where
  "plainLanguages r = (\<forall>c \<in> set (conceptsOf r). plainConcept c)"

definition tTagValues :: "NostrTag list \<Rightarrow> string list" where
  "tTagValues ts =
     List.map_filter
       (\<lambda>tag. case tag of k # v # _ \<Rightarrow> if k = ''t'' \<and> v \<noteq> [] then Some v else None | _ \<Rightarrow> None) ts"

text \<open>The tests that the inner loop of the second pass makes on a key.\<close>

definition selected :: "string \<Rightarrow> string \<Rightarrow> string \<Rightarrow> bool" where
  "selected key b k = (k \<noteq> [] \<and> k \<noteq> ''d'' \<and> k \<noteq> ''t'' \<and> (k = key \<or> prefix (b @ '':'') k))"

definition otherBases :: "string list" where
  "otherBases = [''creator'', ''publisher'', ''license'', ''isAccessibleForFree'',
     ''conditionsOfAccess'', ''about'', ''educationalLevel'', ''audience'',
     ''learningResourceType'', ''datePublished'', ''dateCreated'', ''image'', ''r'',
     ''hasPart'', ''isPartOf'', ''isBasedOn'']"

definition coreBases :: "string list" where
  "coreBases = [''d'', ''type'', ''name'', ''description'', ''t'', ''inLanguage'']"

text \<open>The tags that follow the core tags.\<close>

definition restTags :: "AmbLearningResource \<Rightarrow> ConversionOptions \<Rightarrow> NostrTag list" where
  "restTags r options =
     agentBlockTags r @ accessTags r @ conceptBlockTags r @ trailingTags r options
     @ (if includeRelationships options \<noteq> Some False then relationshipTags r else [])"

text \<open>The resource has none of the nested fields.\<close>

definition onlySimpleFields :: "AmbLearningResource \<Rightarrow> bool" where
  "onlySimpleFields r =
     (creator r = None \<and> about r = None \<and> isAccessibleForFree r = None
      \<and> conditionsOfAccess r = None \<and> license r = None \<and> learningResourceType r = None
      \<and> audience r = None \<and> educationalLevel r = None \<and> dateCreated r = None
      \<and> datePublished r = None \<and> publisher r = None \<and> image r = None \<and> hasPart r = None
      \<and> isPartOf r = None \<and> isBasedOn r = None)"

text \<open>The keywords as the flattener emits them and the unflattener keeps them.\<close>

definition keptKeywords :: "AmbLearningResource \<Rightarrow> string list" where
  "keptKeywords r =
     filter (\<lambda>k. k \<noteq> []) (map toLowerCase (case amb_keywords r of None \<Rightarrow> [] | Some ks \<Rightarrow> ks))"

definition keywordResource :: AmbLearningResource where
  "keywordResource =
     minimalResource\<lparr>description := Some ''A course'',
                      amb_keywords := Some [''Math'', ''physics'', [CHR 0xC4, CHR ''B'']],
                      inLanguage := Some [''en'', ''de'']\<rparr>"

definition keywordTags :: "NostrTag list" where
  "keywordTags = [[''d'', ''https://example.org/c1''], [''type'', ''LearningResource''],
     [''type'', ''Course''], [''name'', ''X''], [''description'', ''A course''],
     [''t'', ''math''], [''t'', ''physics''], [''t'', [CHR 0xE4, CHR ''b'']],
     [''inLanguage'', ''en''], [''inLanguage'', ''de'']]"

definition keywordAmb :: jobj where
  "keywordAmb = [(''@context'', JArr [JStr AMB_CONTEXT, JObj [(''@language'', JStr ''de'')]]),
     (''id'', JStr ''https://example.org/c1''),
     (''keywords'', JArr [JStr ''math'', JStr ''physics'', JStr [CHR 0xE4, CHR ''b'']]),
     (''type'', JArr [JStr ''LearningResource'', JStr ''Course'']),
     (''name'', JStr ''X''), (''description'', JStr ''A course''),
     (''inLanguage'', JArr [JStr ''en'', JStr ''de''])]"

text \<open>The key of the tag starts with \<open>about:prefLabel:\<close>.\<close>

definition isAboutLabelTag :: "NostrTag \<Rightarrow> bool" where
  "isAboutLabelTag t = (case t of [] \<Rightarrow> False | k # _ \<Rightarrow> prefix ''about:prefLabel:'' k)"

text \<open>
  An entry of a label whose language code is not empty, has no colon, is not one of the
  two leaf names that the reconstruction treats specially and not the name of a member
  of \<open>Object.prototype\<close>, and whose text is not empty.
\<close>

definition plainLabel :: "string \<times> string \<Rightarrow> bool" where
  "plainLabel e =
     (fst e \<noteq> [] \<and> CHR '':'' \<notin> set (fst e) \<and> fst e \<noteq> ''prefLabel'' \<and> fst e \<noteq> ''inLanguage''
      \<and> fst e \<notin> set objectPrototypeNames \<and> snd e \<noteq> [])"

text \<open>The collected tags of the entries of a label of the field \<open>about\<close>.\<close>

definition labelTags :: "LocalizedString \<Rightarrow> RelatedTag list" where
  "labelTags entries = map (\<lambda>(lang, label). (''about:prefLabel:'' @ lang, label)) entries"

text \<open>
  The object reconstructed for a concept with the label entries \<open>es\<close>: its id, when it
  has one, the label, and its type, when it has one.
\<close>

definition conceptObject :: "Concept \<Rightarrow> LocalizedString \<Rightarrow> jobj" where
  "conceptObject c es =
     (case concept_id c of None \<Rightarrow> [] | Some v \<Rightarrow> if v \<noteq> [] then [(''id'', JStr v)] else [])
     @ [(''prefLabel'', JObj (map (\<lambda>(l, a). (l, JStr a)) es))]
     @ (case concept_type c of None \<Rightarrow> [] | Some v \<Rightarrow> if v \<noteq> [] then [(''type'', JStr v)] else [])"

text \<open>A resource about one concept with labels in three languages, and one with an empty label.\<close>

definition labelResource :: AmbLearningResource where
  "labelResource =
     minimalResource
       \<lparr>about := Some [\<lparr>concept_id = Some ''http://w3id.org/kim/hochschulfaechersystematik/n71'',
                         concept_type = Some ''Concept'',
                         prefLabel = Some [(''en'', ''Computer Science''), (''de'', ''Informatik''),
                                           (''fr'', ''Informatique'')]\<rparr>]\<rparr>"

definition emptyLabelResource :: AmbLearningResource where
  "emptyLabelResource =
     minimalResource
       \<lparr>about := Some [\<lparr>concept_id = None, concept_type = None,
                         prefLabel = Some [(''en'', []), (''de'', ''Informatik''),
                                           (''fr'', ''Informatique'')]\<rparr>]\<rparr>"

definition emptyLabelTags :: "NostrTag list" where
  "emptyLabelTags = [[''d'', ''https://example.org/c1''], [''type'', ''LearningResource''],
     [''type'', ''Course''], [''name'', ''X''], [''about:prefLabel:en'', []],
     [''about:prefLabel:de'', ''Informatik''], [''about:prefLabel:fr'', ''Informatique'']]"

definition emptyLabelAmb :: jobj where
  "emptyLabelAmb = [(''@context'', JArr [JStr AMB_CONTEXT, JObj [(''@language'', JStr ''de'')]]),
     (''id'', JStr ''https://example.org/c1''),
     (''type'', JArr [JStr ''LearningResource'', JStr ''Course'']),
     (''name'', JStr ''X''),
     (''about'', JArr [JObj [(''prefLabel'', JObj [(''de'', JStr ''Informatik''),
                                                    (''fr'', JStr ''Informatique'')])]])]"

section \<open>Validation of the flattener's input\<close>

text \<open>
  C6. A resource whose id is absent or empty is rejected with MISSING_REQUIRED_FIELD and
  the message about the id; one with an id but an absent or empty name is rejected with
  MISSING_REQUIRED_FIELD and the message about the name (the id is tested first); a
  resource with a non-empty id and a non-empty name is converted.
\<close>

theorem flatten_required_fields:
  "(\<not> truthy (amb_id r) \<longrightarrow> ambToNostr now r options = Inl missingId)
   \<and> (truthy (amb_id r) \<and> \<not> truthy (amb_name r) \<longrightarrow> ambToNostr now r options = Inl missingName)
   \<and> (truthy (amb_id r) \<and> truthy (amb_name r) \<longrightarrow>
        (\<exists>ev ws. ambToNostr now r options = Inr (ev, ws)))
   \<and> message missingId = ''AMB resource must have an id''
   \<and> message missingName = ''AMB resource must have a name''
   \<and> code missingId = MISSING_REQUIRED_FIELD \<and> code missingName = MISSING_REQUIRED_FIELD"
  by (auto simp: ambToNostr_def truthy_def missingId_def missingName_def buildEvent_def Let_def
      split: option.splits)

theorem flatten_required_fields_witness:
  "ambToNostr 5 (minimalResource\<lparr>amb_id := None\<rparr>) noOptions = Inl missingId
   \<and> ambToNostr 5 (minimalResource\<lparr>amb_id := Some []\<rparr>) noOptions = Inl missingId
   \<and> ambToNostr 5 (minimalResource\<lparr>amb_name := Some []\<rparr>) noOptions = Inl missingName
   \<and> (\<exists>ev ws. ambToNostr 5 minimalResource noOptions = Inr (ev, ws))"
  using flatten_required_fields [of "minimalResource\<lparr>amb_id := None\<rparr>" 5 noOptions]
    flatten_required_fields [of "minimalResource\<lparr>amb_id := Some []\<rparr>" 5 noOptions]
    flatten_required_fields [of "minimalResource\<lparr>amb_name := Some []\<rparr>" 5 noOptions]
    flatten_required_fields [of minimalResource 5 noOptions]
  by (simp add: truthy_def minimalResource_def)

section \<open>Timestamps and determinism\<close>

text \<open>
  C10, as stated, fails for the supplied timestamp NaN: it is a number other than 0, and
  the event is created with the wall-clock time.
\<close>

theorem timestamp_by_truthiness_counterexample:
  "timestamp (noOptions\<lparr>timestamp := Some NaN\<rparr>) = Some NaN
   \<and> NaN \<noteq> Finite 0
   \<and> map_sum id (created_at \<circ> fst)
         (ambToNostr 1700000123 minimalResource (noOptions\<lparr>timestamp := Some NaN\<rparr>))
       = Inr (Finite 1700000123)
   \<and> Finite 1700000123 \<noteq> NaN"
  by (simp add: ambToNostr_def minimalResource_def noOptions_def buildEvent_def Let_def
      truthyNumber_def)

text \<open>
  C10, amended. A supplied timestamp of 0 or NaN is treated as absent: the event is
  created with the wall-clock time, as it is when no timestamp is supplied. Every other
  supplied timestamp becomes \<open>created_at\<close>.
\<close>

theorem timestamp_by_truthiness:
  assumes "truthy (amb_id r)" and "truthy (amb_name r)"
  shows "\<exists>ev ws. ambToNostr now r options = Inr (ev, ws)
           \<and> (timestamp options = None \<longrightarrow> created_at ev = Finite (of_int now))
           \<and> (timestamp options = Some (Finite 0) \<longrightarrow> created_at ev = Finite (of_int now))
           \<and> (timestamp options = Some NaN \<longrightarrow> created_at ev = Finite (of_int now))
           \<and> (\<forall>t. timestamp options = Some t \<and> t \<noteq> Finite 0 \<and> t \<noteq> NaN \<longrightarrow> created_at ev = t)"
  using assms
  by (auto simp: ambToNostr_def truthy_def buildEvent_def Let_def truthyNumber_def
      split: option.splits)

theorem timestamp_by_truthiness_witness:
  "(\<exists>ev ws. ambToNostr 1700000123 minimalResource noOptions = Inr (ev, ws)
       \<and> created_at ev = Finite 1700000123)
   \<and> (\<exists>ev ws. ambToNostr 1700000123 minimalResource (noOptions\<lparr>timestamp := Some (Finite 0)\<rparr>)
                = Inr (ev, ws)
       \<and> created_at ev = Finite 1700000123)
   \<and> (\<exists>ev ws. ambToNostr 1700000123 minimalResource (noOptions\<lparr>timestamp := Some NaN\<rparr>)
                = Inr (ev, ws)
       \<and> created_at ev = Finite 1700000123)
   \<and> (\<exists>ev ws. ambToNostr 1700000123 minimalResource (noOptions\<lparr>timestamp := Some (Finite 42)\<rparr>)
                = Inr (ev, ws)
       \<and> created_at ev = Finite 42)"
  using timestamp_by_truthiness [of minimalResource 1700000123 noOptions]
    timestamp_by_truthiness [of minimalResource 1700000123 "noOptions\<lparr>timestamp := Some (Finite 0)\<rparr>"]
    timestamp_by_truthiness [of minimalResource 1700000123 "noOptions\<lparr>timestamp := Some NaN\<rparr>"]
    timestamp_by_truthiness [of minimalResource 1700000123 "noOptions\<lparr>timestamp := Some (Finite 42)\<rparr>"]
  by (simp add: truthy_def minimalResource_def noOptions_def)

text \<open>
  C9, as stated: with a supplied timestamp, the result does not depend on the moment of
  the call. It fails for the supplied timestamp 0, which is replaced by the clock.
\<close>

theorem flatten_deterministic_counterexample:
  "timestamp (noOptions\<lparr>timestamp := Some (Finite 0)\<rparr>) = Some (Finite 0)
   \<and> ambToNostr 1 minimalResource (noOptions\<lparr>timestamp := Some (Finite 0)\<rparr>)
       \<noteq> ambToNostr 2 minimalResource (noOptions\<lparr>timestamp := Some (Finite 0)\<rparr>)"
  by (simp add: ambToNostr_def minimalResource_def noOptions_def buildEvent_def Let_def
      truthyNumber_def)

text \<open>
  C9, amended. With a supplied timestamp that is neither 0 nor NaN two calls give the
  same result, whenever they are made; and for all options the two results agree in
  everything but \<open>created_at\<close>: the same error, or the same tags in the same order, the
  same pubkey, kind, content and warnings.
\<close>

theorem flatten_deterministic:
  "(\<forall>t. timestamp options = Some t \<and> t \<noteq> Finite 0 \<and> t \<noteq> NaN \<longrightarrow>
        ambToNostr now1 r options = ambToNostr now2 r options)
   \<and> map_sum id (\<lambda>(ev, ws). (ev\<lparr>created_at := Finite 0\<rparr>, ws)) (ambToNostr now1 r options)
     = map_sum id (\<lambda>(ev, ws). (ev\<lparr>created_at := Finite 0\<rparr>, ws)) (ambToNostr now2 r options)"
  by (auto simp: ambToNostr_def buildEvent_def Let_def truthyNumber_def split: option.splits)

theorem flatten_deterministic_witness:
  "ambToNostr 1 minimalResource (noOptions\<lparr>timestamp := Some (Finite 1700000000)\<rparr>)
     = ambToNostr 2 minimalResource (noOptions\<lparr>timestamp := Some (Finite 1700000000)\<rparr>)"
  using flatten_deterministic [of "noOptions\<lparr>timestamp := Some (Finite 1700000000)\<rparr>" 1 minimalResource 2]
  by (simp add: noOptions_def)

section \<open>Relationship tags\<close>

lemma filter_forEachOpt:
  "filter P (forEachOpt xs f) = forEachOpt xs (\<lambda>x. filter P (f x))"
  by (cases xs) (simp_all add: forEachOpt_def filter_concat comp_def)

lemma forEachOpt_Nil [simp]: "forEachOpt xs (\<lambda>x. []) = []"
  by (cases xs) (simp_all add: forEachOpt_def)

lemma rel_tagIf:
  "filter isRelationshipTag (tagIf k x)
     = (if prefix ''hasPart:'' k \<or> prefix ''isPartOf:'' k \<or> prefix ''isBasedOn:'' k
        then tagIf k x else [])"
  by (simp add: tagIf_def isRelationshipTag_def createTag_def split: option.splits)

lemma rel_coreTags: "filter isRelationshipTag (coreTags ident nm r) = []"
  by (simp add: coreTags_def filter_forEachOpt rel_tagIf isRelationshipTag_def createTag_def)

lemma rel_creatorTags: "filter isRelationshipTag (creatorTags a) = []"
  by (simp add: creatorTags_def affiliationTags_def rel_tagIf isRelationshipTag_def createTag_def
      split: Agent.splits option.splits)

lemma rel_publisherTags: "filter isRelationshipTag (publisherTags a) = []"
  by (simp add: publisherTags_def rel_tagIf isRelationshipTag_def createTag_def)

lemma rel_agentBlockTags: "filter isRelationshipTag (agentBlockTags r) = []"
  by (simp add: agentBlockTags_def filter_forEachOpt rel_creatorTags rel_publisherTags)

lemma rel_conceptTags:
  "base \<in> {''about'', ''educationalLevel'', ''audience'', ''learningResourceType'',
            ''conditionsOfAccess''} \<Longrightarrow>
   filter isRelationshipTag (conceptTags base c) = []"
  by (auto simp: conceptTags_def rel_tagIf isRelationshipTag_def createTag_def filter_empty_conv
      split: option.splits)

lemma rel_conceptBlockTags: "filter isRelationshipTag (conceptBlockTags r) = []"
  by (simp add: conceptBlockTags_def filter_forEachOpt rel_conceptTags)

lemma rel_accessTags: "filter isRelationshipTag (accessTags r) = []"
  by (simp add: accessTags_def rel_tagIf rel_conceptTags isRelationshipTag_def createTag_def
      split: option.splits)

lemma rel_trailingTags: "filter isRelationshipTag (trailingTags r options) = []"
  by (simp add: trailingTags_def rel_tagIf filter_forEachOpt isRelationshipTag_def createTag_def)

lemma rel_referenceTags:
  "base \<in> {''hasPart'', ''isPartOf''} \<Longrightarrow>
   filter isRelationshipTag (referenceTags base p) = referenceTags base p"
  by (auto simp: referenceTags_def rel_tagIf isRelationshipTag_def createTag_def filter_id_conv
      split: option.splits)

lemma rel_basedOnTags: "filter isRelationshipTag (basedOnTags p) = basedOnTags p"
  by (simp add: basedOnTags_def rel_tagIf isRelationshipTag_def createTag_def)

lemma rel_relationshipTags: "filter isRelationshipTag (relationshipTags r) = relationshipTags r"
  by (simp add: relationshipTags_def filter_forEachOpt rel_referenceTags rel_basedOnTags)

lemma rel_flattenTags:
  "filter isRelationshipTag (flattenTags ident nm r options)
     = (if includeRelationships options \<noteq> Some False then relationshipTags r else [])"
  by (simp add: flattenTags_def rel_coreTags rel_agentBlockTags rel_accessTags
      rel_conceptBlockTags rel_trailingTags rel_relationshipTags)

lemma id_tag_in_forEachOpt:
  "xs = Some ps \<Longrightarrow> p \<in> set ps \<Longrightarrow> t \<in> set (f p) \<Longrightarrow> t \<in> set (forEachOpt xs f)"
  by (auto simp: forEachOpt_def)

text \<open>
  C8. With \<open>includeRelationships\<close> set to false the event has no tag whose key starts
  with \<open>hasPart:\<close>, \<open>isPartOf:\<close> or \<open>isBasedOn:\<close>, whatever the resource holds. With
  the option absent or true, the tags with such keys are exactly the tags of the
  relationship entries, in order, and every entry has its id tag in the event.
\<close>

theorem relationship_suppression:
  assumes "truthy (amb_id r)" and "truthy (amb_name r)"
  shows "\<exists>ev ws ts. ambToNostr now r options = Inr (ev, ws) \<and> tags ev = Some ts
           \<and> (includeRelationships options = Some False \<longrightarrow> filter isRelationshipTag ts = [])
           \<and> (includeRelationships options \<noteq> Some False \<longrightarrow>
                filter isRelationshipTag ts = relationshipTags r
                \<and> (\<forall>ps p. hasPart r = Some ps \<and> p \<in> set ps \<longrightarrow>
                      [''hasPart:id'', ref_id p] \<in> set ts)
                \<and> (\<forall>ps p. isPartOf r = Some ps \<and> p \<in> set ps \<longrightarrow>
                      [''isPartOf:id'', ref_id p] \<in> set ts)
                \<and> (\<forall>ps p. isBasedOn r = Some ps \<and> p \<in> set ps \<longrightarrow>
                      [''isBasedOn:id'', ref_id p] \<in> set ts))"
proof -
  obtain ident nm where i: "amb_id r = Some ident" "ident \<noteq> []"
    and n: "amb_name r = Some nm" "nm \<noteq> []"
    using assms by (auto simp: truthy_def split: option.splits)
  let ?ts = "flattenTags ident nm r options"
  have ev: "ambToNostr now r options = Inr (buildEvent now options ?ts)"
    using i n by (simp add: ambToNostr_def)
  have tg: "tags (fst (buildEvent now options ?ts)) = Some ?ts"
    by (simp add: buildEvent_def Let_def)
  have off: "includeRelationships options = Some False \<Longrightarrow> filter isRelationshipTag ?ts = []"
    by (simp add: rel_flattenTags)
  have on: "includeRelationships options \<noteq> Some False \<Longrightarrow>
      filter isRelationshipTag ?ts = relationshipTags r"
    by (simp add: rel_flattenTags)
  have sub: "includeRelationships options \<noteq> Some False \<Longrightarrow> set (relationshipTags r) \<subseteq> set ?ts"
    by (auto simp: flattenTags_def)
  have hp: "\<And>ps p. hasPart r = Some ps \<Longrightarrow> p \<in> set ps \<Longrightarrow>
      [''hasPart:id'', ref_id p] \<in> set (relationshipTags r)"
    by (auto simp: relationshipTags_def forEachOpt_def referenceTags_def createTag_def)
  have ip: "\<And>ps p. isPartOf r = Some ps \<Longrightarrow> p \<in> set ps \<Longrightarrow>
      [''isPartOf:id'', ref_id p] \<in> set (relationshipTags r)"
    by (auto simp: relationshipTags_def forEachOpt_def referenceTags_def createTag_def)
  have ib: "\<And>ps p. isBasedOn r = Some ps \<Longrightarrow> p \<in> set ps \<Longrightarrow>
      [''isBasedOn:id'', ref_id p] \<in> set (relationshipTags r)"
    by (auto simp: relationshipTags_def forEachOpt_def basedOnTags_def createTag_def)
  show ?thesis
  proof (intro exI conjI impI allI)
    show "ambToNostr now r options
            = Inr (fst (buildEvent now options ?ts), snd (buildEvent now options ?ts))"
      using ev by simp
    show "tags (fst (buildEvent now options ?ts)) = Some ?ts" by (rule tg)
    show "filter isRelationshipTag ?ts = []" if "includeRelationships options = Some False"
      using that by (rule off)
    show "filter isRelationshipTag ?ts = relationshipTags r"
      if "includeRelationships options \<noteq> Some False"
      using that by (rule on)
    show "[''hasPart:id'', ref_id p] \<in> set ?ts"
      if "includeRelationships options \<noteq> Some False" "hasPart r = Some ps \<and> p \<in> set ps"
      for ps p
      using that sub hp by blast
    show "[''isPartOf:id'', ref_id p] \<in> set ?ts"
      if "includeRelationships options \<noteq> Some False" "isPartOf r = Some ps \<and> p \<in> set ps"
      for ps p
      using that sub ip by blast
    show "[''isBasedOn:id'', ref_id p] \<in> set ?ts"
      if "includeRelationships options \<noteq> Some False" "isBasedOn r = Some ps \<and> p \<in> set ps"
      for ps p
      using that sub ib by blast
  qed
qed


theorem relationship_suppression_witness:
  "(\<exists>ev ws ts. ambToNostr 7 relationResource (noOptions\<lparr>includeRelationships := Some False\<rparr>)
        = Inr (ev, ws) \<and> tags ev = Some ts \<and> filter isRelationshipTag ts = [])
   \<and> (\<exists>ev ws ts. ambToNostr 7 relationResource noOptions = Inr (ev, ws) \<and> tags ev = Some ts
        \<and> filter isRelationshipTag ts = relationshipTags relationResource
        \<and> [''hasPart:id'', ''https://example.org/p1''] \<in> set ts)"
proof -
  have i: "truthy (amb_id relationResource)" and n: "truthy (amb_name relationResource)"
    by (simp_all add: truthy_def relationResource_def minimalResource_def)
  have off: "includeRelationships (noOptions\<lparr>includeRelationships := Some False\<rparr>) = Some False"
    by simp
  have on: "includeRelationships noOptions \<noteq> Some False"
    by (simp add: noOptions_def)
  have hp: "hasPart relationResource
              = Some [\<lparr>ref_id = ''https://example.org/p1'', ref_type = Some [''LearningResource''],
                       ref_name = Some ''Part 1''\<rparr>]"
    by (simp add: relationResource_def)
  show ?thesis
    using relationship_suppression [OF i n, of 7 "noOptions\<lparr>includeRelationships := Some False\<rparr>"]
      relationship_suppression [OF i n, of 7 noOptions] off on hp
    by fastforce
qed

section \<open>The id of the reconstructed resource\<close>

lemma dTagValues_Cons:
  "dTagValues (tag # ts)
     = (case tag of k # v # _ \<Rightarrow> if k = ''d'' \<and> v \<noteq> [] then v # dTagValues ts else dTagValues ts
        | _ \<Rightarrow> dTagValues ts)"
  by (simp add: dTagValues_def map_filter_simps split: list.splits)

lemma dTagValues_Nil [simp]: "dTagValues [] = []"
  by (simp add: dTagValues_def map_filter_simps)

lemma groupTag_id:
  "map_of (fp_result (groupTag tag st)) ''id''
     = (case dTagValues [tag] of [] \<Rightarrow> map_of (fp_result st) ''id'' | v # _ \<Rightarrow> Some (JStr v))"
  by (simp add: groupTag_def dTagValues_Cons update_conv' split: list.splits)

lemma fold_groupTag_id:
  "map_of (fp_result (fold groupTag ts st)) ''id''
     = (if dTagValues ts = [] then map_of (fp_result st) ''id''
        else Some (JStr (last (dTagValues ts))))"
proof (induction ts arbitrary: st)
  case Nil
  then show ?case by simp
next
  case (Cons tag ts)
  show ?case
    by (simp add: Cons.IH groupTag_id dTagValues_Cons split: list.splits)
qed

lemma firstPass_id:
  "map_of (fp_result (firstPass ts dl)) ''id''
     = (if dTagValues ts = [] then None else Some (JStr (last (dTagValues ts))))"
  by (simp add: firstPass_def Let_def fold_groupTag_id update_conv' initialResult_def)

lemma groupTag_groups:
  "set (fp_groups (groupTag tag st)) \<subseteq> set (fp_groups st) \<union> set (tagKeys [tag])"
  by (auto simp: groupTag_def tagKeys_def map_filter_simps split: list.splits if_splits)

lemma tagKeys_Cons: "set (tagKeys (tag # ts)) = set (tagKeys [tag]) \<union> set (tagKeys ts)"
  by (auto simp: tagKeys_def map_filter_simps split: list.splits)

lemma fold_groupTag_groups:
  "set (fp_groups (fold groupTag ts st)) \<subseteq> set (fp_groups st) \<union> set (tagKeys ts)"
proof (induction ts arbitrary: st)
  case Nil
  then show ?case by simp
next
  case (Cons tag ts)
  have "set (fp_groups (fold groupTag ts (groupTag tag st)))
          \<subseteq> set (fp_groups (groupTag tag st)) \<union> set (tagKeys ts)"
    by (rule Cons.IH)
  with groupTag_groups [of tag st] show ?case
    by (auto simp: tagKeys_Cons [of tag ts])
qed

lemma firstPass_groups: "set (fp_groups (firstPass ts dl)) \<subseteq> set (tagKeys ts)"
  using fold_groupTag_groups [of ts "\<lparr>fp_result = initialResult dl, fp_keywords = [], fp_groups = []\<rparr>"]
  by (simp add: firstPass_def Let_def)

lemma processGroup_other:
  "processGroup ts key st = Inr st' \<Longrightarrow> baseKeyOf key \<noteq> b \<Longrightarrow> map_of (snd st') b = map_of (snd st) b"
  by (auto simp: processGroup_def assignResult_def Let_def update_conv'
      split: if_splits sum.splits jval.splits)

lemma processGroups_other:
  "processGroups ts keys st = Inr st' \<Longrightarrow> \<forall>k \<in> set keys. baseKeyOf k \<noteq> b \<Longrightarrow>
   map_of (snd st') b = map_of (snd st) b"
proof (induction keys arbitrary: st)
  case Nil
  then show ?case by simp
next
  case (Cons key keys)
  from Cons.prems(1) obtain st1 where s1: "processGroup ts key st = Inr st1"
    and s2: "processGroups ts keys st1 = Inr st'"
    by (auto split: sum.splits)
  from Cons.IH [OF s2] Cons.prems(2) have "map_of (snd st') b = map_of (snd st1) b" by simp
  moreover from processGroup_other [OF s1] Cons.prems(2) have "map_of (snd st1) b = map_of (snd st) b"
    by simp
  ultimately show ?case by simp
qed

lemma dTagValues_nonempty: "v \<in> set (dTagValues ts) \<Longrightarrow> v \<noteq> []"
  by (induction ts) (auto simp: dTagValues_Cons split: list.splits if_splits)

lemma unflattenTags_id:
  assumes "unflattenTags ts l = Inr amb" and "\<forall>k \<in> set (tagKeys ts). baseKeyOf k \<noteq> ''id''"
  shows "map_of amb ''id'' = (if dTagValues ts = [] then None else Some (JStr (last (dTagValues ts))))"
proof -
  from assms(1) obtain P where
    p: "processGroups ts (fp_groups (firstPass ts l)) ([], fp_result (firstPass ts l)) = Inr (P, amb)"
    by (auto simp: unflattenTags_def Let_def split: sum.splits)
  have "\<forall>k \<in> set (fp_groups (firstPass ts l)). baseKeyOf k \<noteq> ''id''"
    using firstPass_groups [of ts l] assms(2) by blast
  from processGroups_other [OF p this] show ?thesis by (simp add: firstPass_id)
qed

text \<open>
  C4, amended. When the event has \<open>d\<close> tags with non-empty values and no tag whose base
  key is \<open>id\<close>, the id of the resource that the unflattener produces is the value of
  the last such \<open>d\<close> tag: every \<open>d\<close> tag overwrites \<open>result.id\<close>.
\<close>

theorem d_tag_last_wins:
  assumes "nostrToAmb event dl = Some (Inr amb)" and "tags event = Some ts"
    and "dTagValues ts \<noteq> []"
    and "\<forall>k \<in> set (tagKeys ts). baseKeyOf k \<noteq> ''id''"
  shows "map_of amb ''id'' = Some (JStr (last (dTagValues ts)))"
proof -
  let ?dl = "languageOrDefault dl"
  from assms(1,2) have u: "unflattenTags ts ?dl = Inr amb"
    by (auto simp: nostrToAmb_def validateAmb_def split: if_splits sum.splits js_stop.splits)
  then obtain P where p: "processGroups ts (fp_groups (firstPass ts ?dl)) ([], fp_result (firstPass ts ?dl)) = Inr (P, amb)"
    by (auto simp: unflattenTags_def Let_def split: sum.splits)
  have "\<forall>k \<in> set (fp_groups (firstPass ts ?dl)). baseKeyOf k \<noteq> ''id''"
    using firstPass_groups [of ts ?dl] assms(4) by blast
  from processGroups_other [OF p this]
  have "map_of amb ''id'' = map_of (fp_result (firstPass ts ?dl)) ''id''" by simp
  then show ?thesis using assms(3) by (simp add: firstPass_id)
qed

text \<open>The amended C4 at an event with two \<open>d\<close> tags.\<close>

theorem d_tag_last_wins_witness:
  "nostrToAmb (eventWithTags twoIdsTags) None = Some (Inr twoIdsAmb)
   \<and> dTagValues twoIdsTags = [''first'', ''second'']
   \<and> map_of twoIdsAmb ''id'' = Some (JStr (last (dTagValues twoIdsTags)))"
proof -
  have r: "nostrToAmb (eventWithTags twoIdsTags) None = Some (Inr twoIdsAmb)"
    by code_simp
  have t: "tags (eventWithTags twoIdsTags) = Some twoIdsTags"
    by (simp add: eventWithTags_def)
  have d: "dTagValues twoIdsTags = [''first'', ''second'']"
    by code_simp
  have k: "\<forall>k \<in> set (tagKeys twoIdsTags). baseKeyOf k \<noteq> ''id''"
    by code_simp
  from d have "dTagValues twoIdsTags \<noteq> []" by simp
  from d_tag_last_wins [OF r t this k] r d show ?thesis by simp
qed

text \<open>
  C4, as stated (the first \<open>d\<close> tag wins), fails at an event with the two \<open>d\<close> tags
  \<open>first\<close> and \<open>second\<close>: the id produced is \<open>second\<close>.
\<close>

theorem d_tag_first_wins_counterexample:
  "tags (eventWithTags twoIdsTags) = Some twoIdsTags
   \<and> dTagValues twoIdsTags = [''first'', ''second'']
   \<and> nostrToAmb (eventWithTags twoIdsTags) None = Some (Inr twoIdsAmb)
   \<and> map_of twoIdsAmb ''id'' = Some (JStr ''second'')
   \<and> map_of twoIdsAmb ''id'' \<noteq> Some (JStr ''first'')"
proof -
  have "nostrToAmb (eventWithTags twoIdsTags) None = Some (Inr twoIdsAmb)"
    by code_simp
  moreover have "dTagValues twoIdsTags = [''first'', ''second'']"
    by code_simp
  ultimately show ?thesis
    by (simp add: eventWithTags_def twoIdsAmb_def)
qed

section \<open>Objects and lists of objects\<close>

lemma processTag_plain_leaf:
  assumes "splitColon key = [b, leaf]" and "leaf \<noteq> []" and "leaf \<noteq> ''prefLabel''"
    and "leaf \<noteq> ''inLanguage''" and "v \<noteq> []"
    and "leaf \<noteq> ''__proto__''" and "map_of cur ''hasOwnProperty'' = None"
  shows "processTag ts i (key, v) (objs, cur)
           = Inr (if cur \<noteq> [] \<and> map_of cur leaf \<noteq> None then (objs @ [cur], [(leaf, AStr v)])
                  else (objs, AList.update leaf (AStr v) cur))"
  using assms
  by (simp add: processTag_def Let_def innerParts_def finalPart_def boundary_def
      shouldStartNewObject_def hasOwnProperty_def propAt_def writeLeaf_def assign_def)

lemma processTag_creator_name:
  "v \<noteq> [] \<Longrightarrow> map_of cur ''hasOwnProperty'' = None \<Longrightarrow>
   processTag ts i (''creator:name'', v) (objs, cur)
           = Inr (if cur \<noteq> [] \<and> map_of cur ''name'' \<noteq> None then (objs @ [cur], [(''name'', AStr v)])
                  else (objs, AList.update ''name'' (AStr v) cur))"
  by (rule processTag_plain_leaf) simp_all

lemma processTag_creator_type:
  "v \<noteq> [] \<Longrightarrow> map_of cur ''hasOwnProperty'' = None \<Longrightarrow>
   processTag ts i (''creator:type'', v) (objs, cur)
           = Inr (if cur \<noteq> [] \<and> map_of cur ''type'' \<noteq> None then (objs @ [cur], [(''type'', AStr v)])
                  else (objs, AList.update ''type'' (AStr v) cur))"
  by (rule processTag_plain_leaf) simp_all

lemma objectLoop_creators:
  assumes "\<forall>x \<in> set xs. fst x \<noteq> [] \<and> snd x \<noteq> []" and "cur = [] \<or> map_of cur ''name'' \<noteq> None"
    and "map_of cur ''hasOwnProperty'' = None"
  shows "objectLoop ts (creatorPairTags xs) i (objs, cur)
           = Inr (if xs = [] then (objs, cur)
                  else (objs @ (if cur \<noteq> [] then [cur] else []) @ map creatorObject (butlast xs),
                        creatorObject (last xs)))"
  using assms
proof (induction xs arbitrary: i objs cur)
  case Nil
  then show ?case by (simp add: creatorPairTags_def)
next
  case (Cons x xs)
  obtain n t where x: "x = (n, t)" by (cases x)
  with Cons.prems have nt: "n \<noteq> []" "t \<noteq> []" by auto
  have blk: "creatorPairTags ((n, t) # xs)
                = (''creator:name'', n) # (''creator:type'', t) # creatorPairTags xs"
    by (simp add: creatorPairTags_def)
  have step: "objectLoop ts (creatorPairTags (x # xs)) i (objs, cur)
                = objectLoop ts (creatorPairTags xs) (Suc (Suc i))
                    (objs @ (if cur \<noteq> [] then [cur] else []), creatorObject x)"
    using Cons.prems(2,3) nt
    by (auto simp: blk processTag_creator_name processTag_creator_type creatorObject_def x
        update_conv')
  have "objectLoop ts (creatorPairTags xs) (Suc (Suc i))
          (objs @ (if cur \<noteq> [] then [cur] else []), creatorObject x)
        = Inr (if xs = [] then (objs @ (if cur \<noteq> [] then [cur] else []), creatorObject x)
               else ((objs @ (if cur \<noteq> [] then [cur] else [])) @ [creatorObject x]
                       @ map creatorObject (butlast xs),
                     creatorObject (last xs)))"
    using Cons.IH [of "creatorObject x" "Suc (Suc i)" "objs @ (if cur \<noteq> [] then [cur] else [])"]
      Cons.prems(1)
    by (simp add: creatorObject_def)
  with step show ?case by simp
qed

lemma collectObjects_creators:
  assumes "\<forall>x \<in> set xs. fst x \<noteq> [] \<and> snd x \<noteq> []"
  shows "collectObjects (creatorPairTags xs) = Inr (map creatorObject xs)"
proof (cases "xs = []")
  case True
  then show ?thesis by (simp add: collectObjects_def creatorPairTags_def)
next
  case False
  then have "map creatorObject (butlast xs) @ [creatorObject (last xs)] = map creatorObject xs"
    by (metis append_butlast_last_id list.simps(9) map_append list.map(1))
  with False objectLoop_creators [OF assms, of "[]" "creatorPairTags xs" 0 "[]"] show ?thesis
    by (simp add: collectObjects_def creatorObject_def)
qed

text \<open>
  C3. When the tags of a colon-delimited group reconstruct exactly one object, the group yields that object; when they reconstruct two or more, it yields the list of the objects in the order in which the loop produced them. Creators that each carry a non-empty \<open>creator:name\<close> and \<open>creator:type\<close> are reconstructed one object for each creator, in the order of the tags: the repeated \<open>name\<close> starts the next object. A group with a colon in a key is reconstructed this way, and the second pass stores the value under the base key after coercing it (for every base key but \<open>__proto__\<close>, under which an assignment creates no property): for the nine always-array fields a value that is not a list becomes the list of that value, any other field keeps the value.
\<close>

theorem array_or_object:
  "(collectObjects ts = Inr [obj] \<longrightarrow> reconstructNestedObjects ts = Inr (objectToJson obj))
   \<and> (collectObjects ts = Inr objs \<and> 2 \<le> length objs \<longrightarrow>
         reconstructNestedObjects ts = Inr (JArr (map objectToJson objs)))
   \<and> ((\<forall>x \<in> set xs. fst x \<noteq> [] \<and> snd x \<noteq> []) \<longrightarrow>
         collectObjects (creatorPairTags xs) = Inr (map creatorObject xs))
   \<and> ((\<exists>t \<in> set ts. CHR '':'' \<in> set (fst t)) \<longrightarrow>
         reconstructProperty ts = reconstructNestedObjects ts)
   \<and> (key \<notin> set P \<and> baseKeyOf key \<noteq> [] \<and> baseKeyOf key \<noteq> ''__proto__''
         \<and> reconstructProperty (relatedTags evtags key (baseKeyOf key)) = Inr v \<longrightarrow>
        (\<exists>P' R'. processGroup evtags key (P, R) = Inr (P', R')
           \<and> map_of R' (baseKeyOf key) = Some (coerceArray (baseKeyOf key) v)))
   \<and> (b \<in> set arrayFields \<longrightarrow>
        coerceArray b (JArr vs) = JArr vs \<and> coerceArray b (JObj ob) = JArr [JObj ob]
        \<and> coerceArray b (JStr s) = JArr [JStr s])
   \<and> (b \<notin> set arrayFields \<longrightarrow> coerceArray b w = w)
   \<and> set arrayFields = {''type'', ''inLanguage'', ''about'', ''creator'', ''contributor'',
        ''learningResourceType'', ''audience'', ''publisher'', ''funder''}"
proof (intro conjI impI)
  assume "collectObjects ts = Inr [obj]"
  then show "reconstructNestedObjects ts = Inr (objectToJson obj)"
    by (simp add: reconstructNestedObjects_def)
next
  assume "collectObjects ts = Inr objs \<and> 2 \<le> length objs"
  then show "reconstructNestedObjects ts = Inr (JArr (map objectToJson objs))"
    by (cases objs rule: list.exhaust; cases "tl objs")
       (auto simp: reconstructNestedObjects_def)
next
  assume "\<forall>x \<in> set xs. fst x \<noteq> [] \<and> snd x \<noteq> []"
  then show "collectObjects (creatorPairTags xs) = Inr (map creatorObject xs)"
    by (rule collectObjects_creators)
next
  assume "\<exists>t \<in> set ts. CHR '':'' \<in> set (fst t)"
  then show "reconstructProperty ts = reconstructNestedObjects ts"
    by (simp add: reconstructProperty_def)
next
  assume "key \<notin> set P \<and> baseKeyOf key \<noteq> [] \<and> baseKeyOf key \<noteq> ''__proto__''
    \<and> reconstructProperty (relatedTags evtags key (baseKeyOf key)) = Inr v"
  then show "\<exists>P' R'. processGroup evtags key (P, R) = Inr (P', R')
           \<and> map_of R' (baseKeyOf key) = Some (coerceArray (baseKeyOf key) v)"
    by (simp add: processGroup_def assignResult_def Let_def update_conv')
next
  assume "b \<in> set arrayFields"
  then show "coerceArray b (JArr vs) = JArr vs" "coerceArray b (JObj ob) = JArr [JObj ob]"
    "coerceArray b (JStr s) = JArr [JStr s]"
    by (simp_all add: coerceArray_def)
next
  assume "b \<notin> set arrayFields"
  then show "coerceArray b w = w" by (simp add: coerceArray_def)
next
  show "set arrayFields = {''type'', ''inLanguage'', ''about'', ''creator'', ''contributor'',
        ''learningResourceType'', ''audience'', ''publisher'', ''funder''}"
    by (simp add: arrayFields_def)
qed

text \<open>
  C3 at two creators, at one creator, and at the group of an event with two creators.
\<close>

theorem array_or_object_witness:
  "reconstructNestedObjects (creatorPairTags twoCreators)
     = Inr (JArr [JObj [(''name'', JStr ''John Doe''), (''type'', JStr ''Person'')],
                  JObj [(''name'', JStr ''Jane Smith''), (''type'', JStr ''Person'')]])
   \<and> reconstructNestedObjects (creatorPairTags [(''John Doe'', ''Person'')])
     = Inr (JObj [(''name'', JStr ''John Doe''), (''type'', JStr ''Person'')])
   \<and> coerceArray ''creator'' (JObj [(''name'', JStr ''John Doe''), (''type'', JStr ''Person'')])
     = JArr [JObj [(''name'', JStr ''John Doe''), (''type'', JStr ''Person'')]]
   \<and> coerceArray ''license'' (JObj [(''id'', JStr ''L'')]) = JObj [(''id'', JStr ''L'')]
   \<and> (\<exists>P' R'. processGroup twoCreatorsEvent ''creator:name'' ([], []) = Inr (P', R')
         \<and> map_of R' ''creator''
             = Some (JArr [JObj [(''name'', JStr ''John Doe''), (''type'', JStr ''Person'')],
                           JObj [(''name'', JStr ''Jane Smith''), (''type'', JStr ''Person'')]]))"
proof -
  let ?two = "JArr [JObj [(''name'', JStr ''John Doe''), (''type'', JStr ''Person'')],
                    JObj [(''name'', JStr ''Jane Smith''), (''type'', JStr ''Person'')]]"
  note two = array_or_object [where ts = "creatorPairTags twoCreators" and xs = twoCreators
      and objs = "map creatorObject twoCreators" and b = "''creator''"
      and ob = "[(''name'', JStr ''John Doe''), (''type'', JStr ''Person'')]"
      and key = "''creator:name''" and P = "[]" and R = "[]" and evtags = twoCreatorsEvent
      and v = ?two]
  note one = array_or_object [where ts = "creatorPairTags [(''John Doe'', ''Person'')]"
      and xs = "[(''John Doe'', ''Person'')]" and obj = "creatorObject (''John Doe'', ''Person'')"
      and b = "''license''" and w = "JObj [(''id'', JStr ''L'')]"]
  have c2: "collectObjects (creatorPairTags twoCreators) = Inr (map creatorObject twoCreators)"
    using two by (simp add: twoCreators_def)
  have r2: "reconstructNestedObjects (creatorPairTags twoCreators) = Inr ?two"
    using two c2 by (simp add: twoCreators_def creatorObject_def objectToJson_def)
  have c1: "collectObjects (creatorPairTags [(''John Doe'', ''Person'')])
              = Inr [creatorObject (''John Doe'', ''Person'')]"
    using one by simp
  have r1: "reconstructNestedObjects (creatorPairTags [(''John Doe'', ''Person'')])
              = Inr (JObj [(''name'', JStr ''John Doe''), (''type'', JStr ''Person'')])"
    using one c1 by (simp add: creatorObject_def objectToJson_def)
  have rel: "relatedTags twoCreatorsEvent ''creator:name'' (baseKeyOf ''creator:name'')
               = creatorPairTags twoCreators"
    by (simp add: twoCreatorsEvent_def baseKeyOf_def creatorPairTags_def twoCreators_def)
  have nested: "reconstructProperty (creatorPairTags twoCreators)
                  = reconstructNestedObjects (creatorPairTags twoCreators)"
    using two by (simp add: creatorPairTags_def twoCreators_def)
  have grp: "\<exists>P' R'. processGroup twoCreatorsEvent ''creator:name'' ([], []) = Inr (P', R')
         \<and> map_of R' ''creator'' = Some ?two"
    using two rel nested r2 by (simp add: baseKeyOf_def coerceArray_def arrayFields_def)
  have co: "coerceArray ''creator'' (JObj [(''name'', JStr ''John Doe''), (''type'', JStr ''Person'')])
     = JArr [JObj [(''name'', JStr ''John Doe''), (''type'', JStr ''Person'')]]"
    using two by (simp add: arrayFields_def)
  have li: "coerceArray ''license'' (JObj [(''id'', JStr ''L'')]) = JObj [(''id'', JStr ''L'')]"
    using one by (simp add: arrayFields_def)
  from r2 r1 co li grp show ?thesis by simp
qed

section \<open>Labels and their language tags\<close>

lemma getObj_snoc:
  "getObj cur p = Some obj \<Longrightarrow> map_of obj k = Some (AObj sub) \<Longrightarrow> getObj cur (p @ [k]) = Some sub"
  by (induction cur p rule: getObj.induct) (auto split: option.splits aval.splits)

lemma getObj_setProp_same:
  "getObj cur p = Some obj \<Longrightarrow> getObj (setProp cur p k x) p = Some (AList.update k x obj)"
  by (induction cur p rule: getObj.induct) (auto simp: update_conv' split: option.splits aval.splits)

lemma getObj_setProp_new:
  "getObj cur p = Some obj \<Longrightarrow> getObj (setProp cur p k (AObj sub)) (p @ [k]) = Some sub"
proof -
  assume "getObj cur p = Some obj"
  then have "getObj (setProp cur p k (AObj sub)) p = Some (AList.update k (AObj sub) obj)"
    by (rule getObj_setProp_same)
  moreover have "map_of (AList.update k (AObj sub) obj) k = Some (AObj sub)"
    by (simp add: update_conv')
  ultimately show ?thesis by (rule getObj_snoc)
qed

lemma propAt_setProp:
  "getObj cur p = Some obj \<Longrightarrow> propAt (setProp cur p k x) p k = Some x"
  by (simp add: propAt_def getObj_setProp_same update_conv')

lemma navigate_TNum: "navigate cur (TNum n) parts = Inr (cur', t') \<Longrightarrow> cur' = cur \<and> t' = TNum n"
  by (induction parts) (auto split: if_splits)

lemma navigate_TStr: "navigate cur (TStr s) parts = Inr (cur', t') \<Longrightarrow> cur' = cur \<and> (\<forall>p. t' \<noteq> TObj p)"
proof (induction parts arbitrary: s)
  case Nil
  then show ?case by auto
next
  case (Cons part ps)
  then show ?case
    by (auto split: if_splits option.splits dest: navigate_TNum)
qed

lemma navigate_valid:
  "navigate cur (TObj p) parts = Inr (cur', TObj p') \<Longrightarrow> getObj cur p \<noteq> None \<Longrightarrow>
   getObj cur' p' \<noteq> None"
proof (induction parts arbitrary: cur p)
  case Nil
  then show ?case by simp
next
  case (Cons part ps)
  from Cons.prems(2) obtain obj where obj: "getObj cur p = Some obj" by auto
  show ?case
  proof (cases "part = []")
    case True
    with Cons show ?thesis by simp
  next
    case False
    show ?thesis
    proof (cases "map_of obj part")
      case None
      with Cons.prems(1) False obj
      have "navigate (setProp cur p part (AObj [])) (TObj (p @ [part])) ps = Inr (cur', TObj p')"
        by (simp add: propAt_def split: if_splits)
      moreover have "getObj (setProp cur p part (AObj [])) (p @ [part]) \<noteq> None"
        using getObj_setProp_new [OF obj] by simp
      ultimately show ?thesis by (rule Cons.IH)
    next
      case (Some x)
      show ?thesis
      proof (cases x)
        case (AStr s)
        show ?thesis
        proof (cases "s = []")
          case True
          with Cons.prems(1) False obj Some AStr
          have "navigate (setProp cur p part (AObj [])) (TObj (p @ [part])) ps = Inr (cur', TObj p')"
            by (simp add: propAt_def)
          moreover have "getObj (setProp cur p part (AObj [])) (p @ [part]) \<noteq> None"
            using getObj_setProp_new [OF obj] by simp
          ultimately show ?thesis by (rule Cons.IH)
        next
          case nonempty: False
          with Cons.prems(1) False obj Some AStr
          have "navigate cur (TStr s) ps = Inr (cur', TObj p')"
            by (simp add: propAt_def)
          with navigate_TStr show ?thesis by blast
        qed
      next
        case (AObj sub)
        with Cons.prems(1) False obj Some
        have "navigate cur (TObj (p @ [part])) ps = Inr (cur', TObj p')"
          by (simp add: propAt_def)
        moreover have "getObj cur (p @ [part]) \<noteq> None"
          using getObj_snoc [OF obj] Some AObj by simp
        ultimately show ?thesis by (rule Cons.IH)
      qed
    qed
  qed
qed

lemma navigate_from_empty:
  "getObj cur p = Some [] \<Longrightarrow> navigate cur (TObj p) parts = Inr (cur', t') \<Longrightarrow>
   \<exists>p'. t' = TObj p' \<and> getObj cur' p' = Some []"
proof (induction parts arbitrary: cur p)
  case Nil
  then show ?case by auto
next
  case (Cons part ps)
  show ?case
  proof (cases "part = []")
    case True
    with Cons show ?thesis by simp
  next
    case False
    with Cons.prems
    have "navigate (setProp cur p part (AObj [])) (TObj (p @ [part])) ps = Inr (cur', t')"
      by (simp add: propAt_def split: if_splits)
    moreover have "getObj (setProp cur p part (AObj [])) (p @ [part]) = Some []"
      using getObj_setProp_new [OF Cons.prems(1)] by simp
    ultimately show ?thesis using Cons.IH by blast
  qed
qed

lemma navigate_unchanged:
  "navigate cur (TObj p) parts = Inr (cur', TObj p') \<Longrightarrow> getObj cur p = Some obj \<Longrightarrow>
   getObj cur' p' = Some obj' \<Longrightarrow> obj' \<noteq> [] \<Longrightarrow> cur' = cur"
proof (induction parts arbitrary: cur p obj)
  case Nil
  then show ?case by simp
next
  case (Cons part ps)
  show ?case
  proof (cases "part = []")
    case True
    with Cons show ?thesis by simp
  next
    case False
    have created: False
      if "navigate (setProp cur p part (AObj [])) (TObj (p @ [part])) ps = Inr (cur', TObj p')"
    proof -
      have "getObj (setProp cur p part (AObj [])) (p @ [part]) = Some []"
        using getObj_setProp_new [OF Cons.prems(2)] by simp
      from navigate_from_empty [OF this that] Cons.prems(3,4) show False by simp
    qed
    show ?thesis
    proof (cases "map_of obj part")
      case None
      with Cons.prems(1,2) False created show ?thesis by (simp add: propAt_def split: if_splits)
    next
      case (Some x)
      show ?thesis
      proof (cases x)
        case (AStr s)
        show ?thesis
        proof (cases "s = []")
          case True
          with Cons.prems(1,2) False Some AStr created show ?thesis by (simp add: propAt_def)
        next
          case nonempty: False
          with Cons.prems(1,2) False Some AStr
          have "navigate cur (TStr s) ps = Inr (cur', TObj p')"
            by (simp add: propAt_def)
          with navigate_TStr show ?thesis by blast
        qed
      next
        case (AObj sub)
        with Cons.prems(1,2) False Some
        have "navigate cur (TObj (p @ [part])) ps = Inr (cur', TObj p')"
          by (simp add: propAt_def)
        moreover have "getObj cur (p @ [part]) = Some sub"
          using getObj_snoc [OF Cons.prems(2)] Some AObj by simp
        ultimately show ?thesis using Cons.IH Cons.prems(3,4) by blast
      qed
    qed
  qed
qed

lemma findLangTag_first:
  assumes "j < length ts" and "fst (ts ! j) = k"
    and "int i - 2 < int j" and "int j < int i + 2"
    and "\<forall>j' < j. \<not> (fst (ts ! j') = k \<and> int i - 2 < int j' \<and> int j' < int i + 2)"
  shows "findLangTag ts i k = Some (ts ! j)"
proof -
  let ?P = "\<lambda>(idx, t). fst t = k \<and> int idx > int i - 2 \<and> int idx < int i + 2"
  have "find ?P (enumerate 0 ts) = Some (j, ts ! j)"
    unfolding find_Some_iff
  proof (intro exI [of _ j] conjI allI impI)
    show "j < length (enumerate 0 ts)" using assms(1) by simp
    show "?P (enumerate 0 ts ! j)" using assms(1-4) by (simp add: nth_enumerate_eq)
    show "(j, ts ! j) = enumerate 0 ts ! j" using assms(1) by (simp add: nth_enumerate_eq)
    fix j' assume "j' < j"
    with assms(1,5) show "\<not> ?P (enumerate 0 ts ! j')" by (simp add: nth_enumerate_eq)
  qed
  then show ?thesis by (simp add: findLangTag_def)
qed

lemma findLangTag_none:
  assumes "\<forall>j < length ts. \<not> (fst (ts ! j) = k \<and> int i - 2 < int j \<and> int j < int i + 2)"
  shows "findLangTag ts i k = None"
proof -
  let ?P = "\<lambda>(idx, t). fst t = k \<and> int idx > int i - 2 \<and> int idx < int i + 2"
  have "\<not> ?P x" if "x \<in> set (enumerate 0 ts)" for x
  proof -
    obtain idx t where x: "x = (idx, t)" by (cases x)
    with that have "idx < length ts" "ts ! idx = t" by (auto simp: in_set_enumerate_eq)
    with assms x show ?thesis by auto
  qed
  then have "find ?P (enumerate 0 ts) = None"
    unfolding find_None_iff by blast
  then show ?thesis by (simp add: findLangTag_def)
qed

lemma findLangTag_sibling:
  "firstLanguageSibling ts i key j \<Longrightarrow>
   findLangTag ts i (joinColon (butlast (splitColon key) @ [''inLanguage''])) = Some (ts ! j)"
  unfolding firstLanguageSibling_def languageSibling_def
  by (intro findLangTag_first) auto

lemma findLangTag_no_sibling:
  "\<forall>j < length ts. \<not> languageSibling ts i key j \<Longrightarrow>
   findLangTag ts i (joinColon (butlast (splitColon key) @ [''inLanguage''])) = None"
  unfolding languageSibling_def
  by (intro findLangTag_none) auto

lemma boundary_cases:
  assumes "boundary objects cur t parts = Inr (objects2, cur2, t2)"
  shows "(shouldStartNewObject cur t (finalPart parts) = Inr True \<and> objects2 = objects @ [cur]
            \<and> navigate [] (TObj []) (innerParts parts) = Inr (cur2, t2))
         \<or> (shouldStartNewObject cur t (finalPart parts) = Inr False \<and> objects2 = objects
            \<and> cur2 = cur \<and> t2 = t)"
  using assms by (auto simp: boundary_def split: sum.splits bool.splits)

lemma boundary_valid:
  assumes "navigate cur (TObj []) inner = Inr (cur1, t1)"
    and "boundary objects cur1 t1 parts = Inr (objects2, cur2, TObj path)"
    and "inner = innerParts parts"
  shows "getObj cur2 path \<noteq> None"
  using boundary_cases [OF assms(2)]
proof
  assume "shouldStartNewObject cur1 t1 (finalPart parts) = Inr True \<and> objects2 = objects @ [cur1]
            \<and> navigate [] (TObj []) (innerParts parts) = Inr (cur2, TObj path)"
  then have "navigate [] (TObj []) (innerParts parts) = Inr (cur2, TObj path)" by simp
  then show ?thesis by (rule navigate_valid) simp
next
  assume "shouldStartNewObject cur1 t1 (finalPart parts) = Inr False \<and> objects2 = objects
            \<and> cur2 = cur1 \<and> TObj path = t1"
  with assms(1) show ?thesis using navigate_valid [of cur "[]" inner cur1 path] by auto
qed

lemma getObj_nonempty: "getObj cur path = Some obj \<Longrightarrow> obj \<noteq> [] \<Longrightarrow> cur \<noteq> []"
  by (cases path) auto

lemma truthyProp_target:
  assumes "truthyProp cur t k"
  shows "\<exists>path obj. t = TObj path \<and> getObj cur path = Some obj \<and> obj \<noteq> [] \<and> cur \<noteq> []"
proof -
  from assms obtain path where t: "t = TObj path" and pr: "propAt cur path k \<noteq> None"
    by (auto simp: truthyProp_def split: target.splits option.splits)
  then obtain obj where o1: "getObj cur path = Some obj" and o2: "map_of obj k \<noteq> None"
    by (auto simp: propAt_def split: option.splits)
  from o2 have "obj \<noteq> []" by auto
  with o1 t getObj_nonempty [OF o1] show ?thesis by blast
qed

lemma not_truthyProp_empty: "getObj cur path = Some [] \<Longrightarrow> \<not> truthyProp cur (TObj path) k"
  by (simp add: truthyProp_def propAt_def)

text \<open>
  C7, amended. Let the collected tag at position \<open>i\<close> have a non-empty value, and let
  its path lead from the accumulator \<open>cur\<close> to the target \<open>t1\<close>. When its leaf is
  \<open>prefLabel\<close> and, once the decision about a new object is taken, the target is an
  object: if the first tag at most one position away whose key is the parent path
  followed by \<open>inLanguage\<close> has a non-empty value, \<open>prefLabel\<close> is written as the mapping
  of that language code to the label; if there is no such tag, or the first one has an
  empty value, \<open>prefLabel\<close> is written as the plain string. When its leaf is
  \<open>inLanguage\<close> and the target has a \<open>prefLabel\<close>: if the target has no \<open>inLanguage\<close> of
  its own, the tag is skipped, the list of objects and the accumulator staying what
  they were; if it has one, the accumulator is closed and the language code is written
  into a new object; and if the call of \<open>hasOwnProperty\<close> raises an error, so does the
  loop.
\<close>

theorem prefLabel_language_pairing:
  assumes "i < length ts" and "ts ! i = (key, v)" and "v \<noteq> []"
    and "navigate cur (TObj []) (innerParts (splitColon key)) = Inr (cur1, t1)"
  shows "(finalPart (splitColon key) = ''prefLabel''
            \<and> boundary objects cur1 t1 (splitColon key) = Inr (objects2, cur2, TObj path)
            \<and> firstLanguageSibling ts i key j \<and> snd (ts ! j) \<noteq> [] \<longrightarrow>
          (\<exists>cur3. processTag ts i (ts ! i) (objects, cur) = Inr (objects2, cur3)
             \<and> propAt cur3 path ''prefLabel'' = Some (AObj [(snd (ts ! j), AStr v)])))
     \<and> (finalPart (splitColon key) = ''prefLabel''
            \<and> boundary objects cur1 t1 (splitColon key) = Inr (objects2, cur2, TObj path)
            \<and> ((\<forall>j' < length ts. \<not> languageSibling ts i key j')
                 \<or> (firstLanguageSibling ts i key j \<and> snd (ts ! j) = [])) \<longrightarrow>
          (\<exists>cur3. processTag ts i (ts ! i) (objects, cur) = Inr (objects2, cur3)
             \<and> propAt cur3 path ''prefLabel'' = Some (AStr v)))
     \<and> (finalPart (splitColon key) = ''inLanguage'' \<and> truthyProp cur1 t1 ''prefLabel''
            \<and> hasOwnProperty cur1 t1 ''inLanguage'' = Inr False \<longrightarrow>
          processTag ts i (ts ! i) (objects, cur) = Inr (objects, cur))
     \<and> (finalPart (splitColon key) = ''inLanguage'' \<and> truthyProp cur1 t1 ''prefLabel''
            \<and> hasOwnProperty cur1 t1 ''inLanguage'' = Inr True
            \<and> navigate [] (TObj []) (innerParts (splitColon key)) = Inr (curN, tN) \<longrightarrow>
          (\<exists>pathN. tN = TObj pathN
             \<and> processTag ts i (ts ! i) (objects, cur)
                 = Inr (objects @ [cur], setProp curN pathN ''inLanguage'' (AStr v))
             \<and> propAt (setProp curN pathN ''inLanguage'' (AStr v)) pathN ''inLanguage''
                 = Some (AStr v)))
     \<and> (finalPart (splitColon key) = ''inLanguage'' \<and> truthyProp cur1 t1 ''prefLabel''
            \<and> hasOwnProperty cur1 t1 ''inLanguage'' = Inl e \<longrightarrow>
          processTag ts i (ts ! i) (objects, cur) = Inl e)"
proof (intro conjI impI)
  let ?k = "joinColon (butlast (splitColon key) @ [''inLanguage''])"
  assume a: "finalPart (splitColon key) = ''prefLabel''
            \<and> boundary objects cur1 t1 (splitColon key) = Inr (objects2, cur2, TObj path)
            \<and> firstLanguageSibling ts i key j \<and> snd (ts ! j) \<noteq> []"
  then have f: "findLangTag ts i ?k = Some (ts ! j)"
    using findLangTag_sibling by blast
  from a assms(4) have valid: "getObj cur2 path \<noteq> None"
    using boundary_valid [of cur "innerParts (splitColon key)" cur1 t1 objects "splitColon key"
        objects2 cur2 path]
    by simp
  let ?cur3 = "setProp cur2 path ''prefLabel'' (AObj [(snd (ts ! j), AStr v)])"
  have w: "writeLeaf ts i (splitColon key) v cur2 (TObj path) = Inr ?cur3"
    using a f by (cases "ts ! j") (simp add: writeLeaf_def Let_def assign_def)
  have "processTag ts i (ts ! i) (objects, cur) = Inr (objects2, ?cur3)"
    using a assms(2-4) w by (simp add: processTag_def Let_def)
  moreover have "propAt ?cur3 path ''prefLabel'' = Some (AObj [(snd (ts ! j), AStr v)])"
    using valid by (auto simp: propAt_setProp)
  ultimately show "\<exists>cur3. processTag ts i (ts ! i) (objects, cur) = Inr (objects2, cur3)
             \<and> propAt cur3 path ''prefLabel'' = Some (AObj [(snd (ts ! j), AStr v)])"
    by blast
next
  let ?k = "joinColon (butlast (splitColon key) @ [''inLanguage''])"
  assume a: "finalPart (splitColon key) = ''prefLabel''
            \<and> boundary objects cur1 t1 (splitColon key) = Inr (objects2, cur2, TObj path)
            \<and> ((\<forall>j' < length ts. \<not> languageSibling ts i key j')
                 \<or> (firstLanguageSibling ts i key j \<and> snd (ts ! j) = []))"
  from a assms(4) have valid: "getObj cur2 path \<noteq> None"
    using boundary_valid [of cur "innerParts (splitColon key)" cur1 t1 objects "splitColon key"
        objects2 cur2 path]
    by simp
  let ?cur3 = "setProp cur2 path ''prefLabel'' (AStr v)"
  from a have "findLangTag ts i ?k = None \<or> (\<exists>k'. findLangTag ts i ?k = Some (k', []))"
    using findLangTag_no_sibling [of ts i key] findLangTag_sibling [of ts i key j]
    by (cases "ts ! j") auto
  then have w: "writeLeaf ts i (splitColon key) v cur2 (TObj path) = Inr ?cur3"
    using a by (auto simp: writeLeaf_def Let_def assign_def)
  have "processTag ts i (ts ! i) (objects, cur) = Inr (objects2, ?cur3)"
    using a assms(2-4) w by (simp add: processTag_def Let_def)
  moreover have "propAt ?cur3 path ''prefLabel'' = Some (AStr v)"
    using valid by (auto simp: propAt_setProp)
  ultimately show "\<exists>cur3. processTag ts i (ts ! i) (objects, cur) = Inr (objects2, cur3)
             \<and> propAt cur3 path ''prefLabel'' = Some (AStr v)"
    by blast
next
  assume b: "finalPart (splitColon key) = ''inLanguage'' \<and> truthyProp cur1 t1 ''prefLabel''
            \<and> hasOwnProperty cur1 t1 ''inLanguage'' = Inr False"
  then obtain path obj where t1: "t1 = TObj path" and obj: "getObj cur1 path = Some obj" "obj \<noteq> []"
    and ne: "cur1 \<noteq> []"
    using truthyProp_target by blast
  have same: "cur1 = cur"
    using navigate_unchanged [of cur "[]" _ cur1 path cur obj] assms(4) t1 obj by simp
  have "shouldStartNewObject cur1 t1 ''inLanguage'' = Inr False"
    using b ne by (simp add: shouldStartNewObject_def)
  with b have bnd: "boundary objects cur1 t1 (splitColon key) = Inr (objects, cur1, t1)"
    by (simp add: boundary_def)
  have "writeLeaf ts i (splitColon key) v cur1 t1 = Inr cur1"
    using b by (simp add: writeLeaf_def Let_def)
  with b assms(2-4) bnd same show "processTag ts i (ts ! i) (objects, cur) = Inr (objects, cur)"
    by (simp add: processTag_def Let_def)
next
  assume b: "finalPart (splitColon key) = ''inLanguage'' \<and> truthyProp cur1 t1 ''prefLabel''
            \<and> hasOwnProperty cur1 t1 ''inLanguage'' = Inr True
            \<and> navigate [] (TObj []) (innerParts (splitColon key)) = Inr (curN, tN)"
  then obtain path obj where t1: "t1 = TObj path" and obj: "getObj cur1 path = Some obj" "obj \<noteq> []"
    and ne: "cur1 \<noteq> []"
    using truthyProp_target by blast
  have same: "cur1 = cur"
    using navigate_unchanged [of cur "[]" _ cur1 path cur obj] assms(4) t1 obj by simp
  from b obtain pathN where tN: "tN = TObj pathN" and empty: "getObj curN pathN = Some []"
    using navigate_from_empty [of "[]" "[]" "innerParts (splitColon key)" curN tN] by auto
  have "shouldStartNewObject cur1 t1 ''inLanguage'' = Inr True"
    using b ne by (simp add: shouldStartNewObject_def)
  with b have bnd: "boundary objects cur1 t1 (splitColon key) = Inr (objects @ [cur1], curN, tN)"
    by (simp add: boundary_def)
  have "writeLeaf ts i (splitColon key) v curN tN
          = Inr (setProp curN pathN ''inLanguage'' (AStr v))"
    using b tN not_truthyProp_empty [OF empty] by (simp add: writeLeaf_def Let_def assign_def)
  with b assms(2-4) bnd same
  have "processTag ts i (ts ! i) (objects, cur)
          = Inr (objects @ [cur], setProp curN pathN ''inLanguage'' (AStr v))"
    by (simp add: processTag_def Let_def)
  moreover have "propAt (setProp curN pathN ''inLanguage'' (AStr v)) pathN ''inLanguage''
                   = Some (AStr v)"
    using empty by (simp add: propAt_setProp)
  ultimately show "\<exists>pathN. tN = TObj pathN
             \<and> processTag ts i (ts ! i) (objects, cur)
                 = Inr (objects @ [cur], setProp curN pathN ''inLanguage'' (AStr v))
             \<and> propAt (setProp curN pathN ''inLanguage'' (AStr v)) pathN ''inLanguage''
                 = Some (AStr v)"
    using tN by blast
next
  assume b: "finalPart (splitColon key) = ''inLanguage'' \<and> truthyProp cur1 t1 ''prefLabel''
            \<and> hasOwnProperty cur1 t1 ''inLanguage'' = Inl e"
  then obtain path obj where ne: "cur1 \<noteq> []"
    using truthyProp_target by blast
  have "shouldStartNewObject cur1 t1 ''inLanguage'' = Inl e"
    using b ne by (simp add: shouldStartNewObject_def)
  with b have "boundary objects cur1 t1 (splitColon key) = Inl e"
    by (simp add: boundary_def)
  with b assms(2-4) show "processTag ts i (ts ! i) (objects, cur) = Inl e"
    by (simp add: processTag_def Let_def)
qed

text \<open>
  C7, as stated, fails for the label at position 1 of three collected tags: the sibling \<open>a:inLanguage\<close> with the language code \<open>de\<close> is one position after it, but the sibling one position before it, whose value is empty, is found first, and the label is written as a plain string.
\<close>

theorem prefLabel_language_pairing_counterexample:
  "emptyLanguageTags ! 1 = (''a:prefLabel'', ''L'')
   \<and> emptyLanguageTags ! 2 = (''a:inLanguage'', ''de'')
   \<and> objectLoop emptyLanguageTags (take 1 emptyLanguageTags) 0 ([], []) = Inr ([], [])
   \<and> processTag emptyLanguageTags 1 (emptyLanguageTags ! 1) ([], [])
       = Inr ([], [(''prefLabel'', AStr ''L'')])
   \<and> reconstructNestedObjects emptyLanguageTags = Inr (JObj [(''prefLabel'', JStr ''L'')])"
  by code_simp

text \<open>
  The amended C7 at a label followed by its language tag: the label becomes a mapping,
  and the language tag is skipped; at a label whose first sibling has an empty value:
  the label is a plain string; and at a language tag whose target has a label and a
  language: the tag starts a new object.
\<close>

theorem prefLabel_language_pairing_witness:
  "processTag pairedLabelTags 0 (pairedLabelTags ! 0) ([], [])
     = Inr ([], [(''prefLabel'', AObj [(''en'', AStr ''Mathematics'')])])
   \<and> processTag pairedLabelTags 1 (pairedLabelTags ! 1)
        ([], [(''prefLabel'', AObj [(''en'', AStr ''Mathematics'')])])
     = Inr ([], [(''prefLabel'', AObj [(''en'', AStr ''Mathematics'')])])
   \<and> processTag emptyLanguageTags 1 (emptyLanguageTags ! 1) ([], [])
     = Inr ([], [(''prefLabel'', AStr ''L'')])
   \<and> processTag emptyLanguageTags 2 (emptyLanguageTags ! 2)
        ([], [(''prefLabel'', AStr ''L''), (''inLanguage'', AStr ''fr'')])
     = Inr ([[(''prefLabel'', AStr ''L''), (''inLanguage'', AStr ''fr'')]],
            [(''inLanguage'', AStr ''de'')])"
proof -
  let ?obj = "[(''prefLabel'', AObj [(''en'', AStr ''Mathematics'')])]"
  let ?both = "[(''prefLabel'', AStr ''L''), (''inLanguage'', AStr ''fr'')]"
  have n0: "navigate [] (TObj []) (innerParts (splitColon ''about:prefLabel'')) = Inr ([], TObj [])"
    by (simp add: innerParts_def)
  have b0: "boundary [] [] (TObj []) (splitColon ''about:prefLabel'') = Inr ([], [], TObj [])"
    by (simp add: boundary_def shouldStartNewObject_def)
  have s0: "firstLanguageSibling pairedLabelTags 0 ''about:prefLabel'' 1"
    by (simp add: firstLanguageSibling_def languageSibling_def pairedLabelTags_def)
  have n1: "navigate ?obj (TObj []) (innerParts (splitColon ''about:inLanguage''))
              = Inr (?obj, TObj [])"
    by (simp add: innerParts_def)
  have h1: "hasOwnProperty ?obj (TObj []) ''inLanguage'' = Inr False"
    by (simp add: hasOwnProperty_def propAt_def)
  have first: "\<exists>cur3. processTag pairedLabelTags 0 (pairedLabelTags ! 0) ([], []) = Inr ([], cur3)
      \<and> propAt cur3 [] ''prefLabel'' = Some (AObj [(''en'', AStr ''Mathematics'')])"
    using prefLabel_language_pairing [of 0 pairedLabelTags "''about:prefLabel''" "''Mathematics''"
        "[]" "[]" "TObj []" "[]" "[]" "[]" "[]" 1, OF _ _ _ n0] b0 s0
    by (simp add: pairedLabelTags_def finalPart_def)
  have p0: "processTag pairedLabelTags 0 (pairedLabelTags ! 0) ([], []) = Inr ([], ?obj)"
    by code_simp
  have p1: "processTag pairedLabelTags 1 (pairedLabelTags ! 1) ([], ?obj) = Inr ([], ?obj)"
    using prefLabel_language_pairing [of 1 pairedLabelTags "''about:inLanguage''" "''en''"
        ?obj ?obj "TObj []" "[]", OF _ _ _ n1] h1
    by (simp add: pairedLabelTags_def finalPart_def truthyProp_def propAt_def)
  have n2: "navigate [] (TObj []) (innerParts (splitColon ''a:prefLabel'')) = Inr ([], TObj [])"
    by (simp add: innerParts_def)
  have b2: "boundary [] [] (TObj []) (splitColon ''a:prefLabel'') = Inr ([], [], TObj [])"
    by (simp add: boundary_def shouldStartNewObject_def)
  have s2: "firstLanguageSibling emptyLanguageTags 1 ''a:prefLabel'' 0"
    by (simp add: firstLanguageSibling_def languageSibling_def emptyLanguageTags_def)
  have plain: "\<exists>cur3. processTag emptyLanguageTags 1 (emptyLanguageTags ! 1) ([], []) = Inr ([], cur3)
      \<and> propAt cur3 [] ''prefLabel'' = Some (AStr ''L'')"
    using prefLabel_language_pairing [of 1 emptyLanguageTags "''a:prefLabel''" "''L''"
        "[]" "[]" "TObj []" "[]" "[]" "[]" "[]" 0, OF _ _ _ n2] b2 s2
    by (simp add: emptyLanguageTags_def finalPart_def)
  have p2: "processTag emptyLanguageTags 1 (emptyLanguageTags ! 1) ([], [])
              = Inr ([], [(''prefLabel'', AStr ''L'')])"
    by code_simp
  have n3: "navigate ?both (TObj []) (innerParts (splitColon ''a:inLanguage'')) = Inr (?both, TObj [])"
    by (simp add: innerParts_def)
  have h3: "hasOwnProperty ?both (TObj []) ''inLanguage'' = Inr True"
    by (simp add: hasOwnProperty_def propAt_def)
  have n4: "navigate [] (TObj []) (innerParts (splitColon ''a:inLanguage'')) = Inr ([], TObj [])"
    by (simp add: innerParts_def)
  have p3: "processTag emptyLanguageTags 2 (emptyLanguageTags ! 2) ([], ?both)
              = Inr ([?both], [(''inLanguage'', AStr ''de'')])"
    using prefLabel_language_pairing [of 2 emptyLanguageTags "''a:inLanguage''" "''de''"
        ?both ?both "TObj []" "[]" _ _ _ _ "[]" "TObj []", OF _ _ _ n3] h3 n4
    by (simp add: emptyLanguageTags_def finalPart_def truthyProp_def propAt_def)
  from first p0 p1 plain p2 p3 show ?thesis by simp
qed

section \<open>The second pass, group by group\<close>

subsection \<open>Base keys\<close>

lemma splitColon_nonempty [simp]: "splitColon k \<noteq> []"
  by (induction k) (auto split: list.splits)

lemma baseKeyOf_takeWhile: "baseKeyOf k = takeWhile (\<lambda>c. c \<noteq> CHR '':'') k"
  by (induction k) (auto simp: baseKeyOf_def split: list.splits)

lemma baseKeyOf_prefix:
  "CHR '':'' \<notin> set b \<Longrightarrow> prefix (b @ '':'') k \<Longrightarrow> baseKeyOf k = b"
  by (auto simp: baseKeyOf_takeWhile prefix_def takeWhile_append2 takeWhile_append)

lemma baseKeyOf_cases:
  "baseKeyOf k = b \<Longrightarrow> k = b \<or> prefix (b @ '':'') k"
proof -
  assume b: "baseKeyOf k = b"
  have k: "k = takeWhile (\<lambda>c. c \<noteq> CHR '':'') k @ dropWhile (\<lambda>c. c \<noteq> CHR '':'') k"
    by simp
  show ?thesis
  proof (cases "dropWhile (\<lambda>c. c \<noteq> CHR '':'') k")
    case Nil
    with k b show ?thesis by (simp add: baseKeyOf_takeWhile)
  next
    case (Cons c cs)
    then have "c = CHR '':''" using hd_dropWhile [of "\<lambda>c. c \<noteq> CHR '':''" k] by auto
    with k b Cons have "k = b @ '':'' @ cs" by (simp add: baseKeyOf_takeWhile)
    then show ?thesis by (metis append.assoc prefixI)
  qed
qed

lemma baseKeyOf_no_colon: "CHR '':'' \<notin> set (baseKeyOf k)"
  by (auto simp: baseKeyOf_takeWhile dest: set_takeWhileD)

lemma baseKeyOf_self: "CHR '':'' \<notin> set b \<Longrightarrow> baseKeyOf b = b"
  by (auto simp: baseKeyOf_takeWhile takeWhile_eq_all_conv)

subsection \<open>The tags of a group\<close>

text \<open>A tag belongs to the group when it is well formed and its key is selected.\<close>

lemma relatedTags_append:
  "relatedTags (xs @ ys) key b = relatedTags xs key b @ relatedTags ys key b"
  by (induction xs) (auto split: list.splits)

lemma relatedTags_keys:
  "k \<in> fst ` set (relatedTags ts key b)
     \<longleftrightarrow> k \<in> set (tagKeys ts) \<and> k \<noteq> [] \<and> k \<noteq> ''d'' \<and> k \<noteq> ''t''
          \<and> (k = key \<or> prefix (b @ '':'') k)"
proof (induction ts)
  case Nil
  then show ?case by (simp add: tagKeys_def map_filter_simps)
next
  case (Cons tag ts)
  show ?case
    using Cons.IH
    by (cases tag rule: list.exhaust; cases "tl tag")
       (auto simp: tagKeys_Cons [of tag ts] tagKeys_def map_filter_simps)
qed

lemma relatedTags_nested:
  "prefix (b @ '':'') key \<Longrightarrow> relatedTags ts key b = relatedTags ts (b @ '':'') b"
  by (induction ts) (auto split: list.splits)

lemma relatedTags_no_bare:
  "b \<notin> set (tagKeys ts) \<Longrightarrow> relatedTags ts b b = relatedTags ts (b @ '':'') b"
proof (induction ts)
  case Nil
  then show ?case by simp
next
  case (Cons tag ts)
  then show ?case
    by (cases tag rule: list.exhaust; cases "tl tag")
       (auto simp: tagKeys_Cons [of tag ts] tagKeys_def map_filter_simps)
qed

subsection \<open>The keys of the groups\<close>

lemma groupTag_distinct: "distinct (fp_groups st) \<Longrightarrow> distinct (fp_groups (groupTag tag st))"
  by (auto simp: groupTag_def split: list.splits)

lemma groupTag_no_empty: "[] \<notin> set (fp_groups st) \<Longrightarrow> [] \<notin> set (fp_groups (groupTag tag st))"
  by (auto simp: groupTag_def split: list.splits)

lemma groupTag_mono: "set (fp_groups st) \<subseteq> set (fp_groups (groupTag tag st))"
  by (auto simp: groupTag_def split: list.splits)

lemma groupTag_adds:
  "k \<in> set (tagKeys [tag]) \<Longrightarrow> k \<noteq> [] \<Longrightarrow> k \<noteq> ''d'' \<Longrightarrow> k \<noteq> ''t'' \<Longrightarrow>
   k \<in> set (fp_groups (groupTag tag st))"
  by (auto simp: groupTag_def tagKeys_def map_filter_simps split: list.splits)

lemma fold_groupTag_props:
  "distinct (fp_groups st) \<Longrightarrow> [] \<notin> set (fp_groups st) \<Longrightarrow>
   distinct (fp_groups (fold groupTag ts st)) \<and> [] \<notin> set (fp_groups (fold groupTag ts st))"
  by (induction ts arbitrary: st) (simp_all add: groupTag_distinct groupTag_no_empty)

lemma fold_groupTag_mono: "set (fp_groups st) \<subseteq> set (fp_groups (fold groupTag ts st))"
proof (induction ts arbitrary: st)
  case Nil
  then show ?case by simp
next
  case (Cons tag ts)
  from groupTag_mono [of st tag] Cons.IH [of "groupTag tag st"] show ?case by auto
qed

lemma fold_groupTag_adds:
  "k \<in> set (tagKeys ts) \<Longrightarrow> k \<noteq> [] \<Longrightarrow> k \<noteq> ''d'' \<Longrightarrow> k \<noteq> ''t'' \<Longrightarrow>
   k \<in> set (fp_groups (fold groupTag ts st))"
proof (induction ts arbitrary: st)
  case Nil
  then show ?case by (simp add: tagKeys_def map_filter_simps)
next
  case (Cons tag ts)
  from Cons.prems(1) consider "k \<in> set (tagKeys [tag])" | "k \<in> set (tagKeys ts)"
    by (auto simp: tagKeys_Cons [of tag ts])
  then show ?case
  proof cases
    case 1
    with Cons.prems have "k \<in> set (fp_groups (groupTag tag st))" by (simp add: groupTag_adds)
    with fold_groupTag_mono [of "groupTag tag st" ts] show ?thesis by auto
  next
    case 2
    with Cons show ?thesis by simp
  qed
qed

lemma firstPass_groups_props:
  "distinct (fp_groups (firstPass ts l))" "[] \<notin> set (fp_groups (firstPass ts l))"
  using fold_groupTag_props [of "\<lparr>fp_result = initialResult l, fp_keywords = [], fp_groups = []\<rparr>" ts]
  by (simp_all add: firstPass_def Let_def)

lemma firstPass_groups_adds:
  "k \<in> set (tagKeys ts) \<Longrightarrow> k \<noteq> [] \<Longrightarrow> k \<noteq> ''d'' \<Longrightarrow> k \<noteq> ''t'' \<Longrightarrow>
   k \<in> set (fp_groups (firstPass ts l))"
  using fold_groupTag_adds [of k ts "\<lparr>fp_result = initialResult l, fp_keywords = [], fp_groups = []\<rparr>"]
  by (simp add: firstPass_def Let_def)

subsection \<open>The value of a property after the second pass\<close>

lemma not_prefix_self: "\<not> prefix (b @ '':'') b"
  by (auto simp: prefix_def)

lemma prefix_colon_length: "b \<noteq> [] \<Longrightarrow> prefix (b @ '':'') k \<Longrightarrow> 2 \<le> length k"
proof -
  assume "b \<noteq> []" and "prefix (b @ '':'') k"
  then have "length b + 1 \<le> length k" "0 < length b"
    using prefix_length_le [of "b @ '':''" k] by simp_all
  then show ?thesis by linarith
qed

lemma processGroups_group:
  assumes "processGroups ts ks (P, R) = Inr (P', R')"
    and "distinct ks" and "set ks \<subseteq> set (tagKeys ts)" and "[] \<notin> set ks"
    and b: "b \<noteq> []" "CHR '':'' \<notin> set b" and np: "b \<noteq> ''__proto__''"
  shows "map_of R' b
           = (if b \<in> set ks \<and> b \<notin> set P then groupValue b (relatedTags ts b b)
              else if \<exists>k. k \<in> set ks \<and> k \<notin> set P \<and> prefix (b @ '':'') k
                then groupValue b (relatedTags ts (b @ '':'') b)
              else map_of R b)"
proof -
  define bare where "bare = (\<lambda>ks P. b \<in> set ks \<and> b \<notin> set P)"
  define nest where "nest = (\<lambda>ks P. \<exists>k. k \<in> set ks \<and> k \<notin> set P \<and> prefix (b @ '':'') k)"
  define A where "A = groupValue b (relatedTags ts b b)"
  define B where "B = groupValue b (relatedTags ts (b @ '':'') b)"
  define val where "val = (\<lambda>ks P R. if bare ks P then A else if nest ks P then B else map_of R b)"
  have "map_of R' b = val ks P R"
    using assms(1-4)
  proof (induction ks arbitrary: P R)
    case Nil
    then show ?case by (simp add: val_def bare_def nest_def)
  next
    case (Cons k ks)
    from Cons.prems(1) obtain P1 R1 where step: "processGroup ts k (P, R) = Inr (P1, R1)"
      and rest: "processGroups ts ks (P1, R1) = Inr (P', R')"
      by (auto split: sum.splits)
    from Cons.prems have kprops: "k \<notin> set ks" "k \<in> set (tagKeys ts)" "k \<noteq> []"
      and ksprops: "distinct ks" "set ks \<subseteq> set (tagKeys ts)" "[] \<notin> set ks"
      by auto
    have IH: "map_of R' b = val ks P1 R1"
      using Cons.IH [OF rest ksprops] .
    have "val (k # ks) P R = val ks P1 R1"
    proof (cases "k \<in> set P \<or> baseKeyOf k = []")
      case True
      with step have same: "P1 = P" "R1 = R"
        by (auto simp: processGroup_def Let_def split: if_splits)
      have kb: "k = b \<Longrightarrow> k \<in> set P" using True b by (auto simp: baseKeyOf_self)
      have kp: "prefix (b @ '':'') k \<Longrightarrow> k \<in> set P"
        using True b by (auto simp: baseKeyOf_prefix)
      have "bare (k # ks) P = bare ks P" unfolding bare_def using kb by auto
      moreover have "nest (k # ks) P = nest ks P" unfolding nest_def using kp by auto
      ultimately show ?thesis unfolding val_def same by simp
    next
      case False
      let ?bk = "baseKeyOf k"
      from False step obtain v where v: "reconstructProperty (relatedTags ts k ?bk) = Inr v"
        and P1: "P1 = P @ map fst (relatedTags ts k ?bk)"
        and ar: "assignResult R ?bk (coerceArray ?bk v) = Inr R1"
        by (auto simp: processGroup_def Let_def split: sum.splits)
      have R1: "R1 = AList.update ?bk (coerceArray ?bk v) R" if "?bk \<noteq> ''__proto__''"
        using ar that by (simp add: assignResult_def)
      have inP1: "k' \<in> set P1 \<longleftrightarrow> k' \<in> set P \<or> k' \<in> fst ` set (relatedTags ts k ?bk)" for k'
        by (auto simp: P1)
      show ?thesis
      proof (cases "?bk = b")
        case other: False
        have r: "map_of R1 b = map_of R b" using processGroup_other [OF step other] by simp
        have nk: "k \<noteq> b" using other b by (auto simp: baseKeyOf_self)
        have npk: "\<not> prefix (b @ '':'') k" using other b by (auto simp: baseKeyOf_prefix)
        have pb: "b \<in> set P1 \<longleftrightarrow> b \<in> set P"
        proof -
          have "\<not> prefix (?bk @ '':'') b"
            using baseKeyOf_prefix [OF baseKeyOf_no_colon, of k b] other b
            by (auto simp: baseKeyOf_self)
          with nk show ?thesis by (simp add: inP1 relatedTags_keys)
        qed
        have pn: "k' \<in> set P1 \<longleftrightarrow> k' \<in> set P" if "prefix (b @ '':'') k'" for k'
        proof -
          from that b have "baseKeyOf k' = b" by (simp add: baseKeyOf_prefix)
          then have "\<not> prefix (?bk @ '':'') k'"
            using baseKeyOf_prefix [OF baseKeyOf_no_colon, of k k'] other by auto
          moreover from that npk have "k' \<noteq> k" by auto
          ultimately show ?thesis by (simp add: inP1 relatedTags_keys)
        qed
        have "bare (k # ks) P = bare ks P1" unfolding bare_def using nk pb by auto
        moreover have "nest (k # ks) P = nest ks P1"
          unfolding nest_def
        proof
          assume "\<exists>k'. k' \<in> set (k # ks) \<and> k' \<notin> set P \<and> prefix (b @ '':'') k'"
          then obtain k' where "k' \<in> set (k # ks)" "k' \<notin> set P" "prefix (b @ '':'') k'" by blast
          with npk pn [of k'] have "k' \<in> set ks \<and> k' \<notin> set P1 \<and> prefix (b @ '':'') k'" by auto
          then show "\<exists>k'. k' \<in> set ks \<and> k' \<notin> set P1 \<and> prefix (b @ '':'') k'" by blast
        next
          assume "\<exists>k'. k' \<in> set ks \<and> k' \<notin> set P1 \<and> prefix (b @ '':'') k'"
          then obtain k' where "k' \<in> set ks" "k' \<notin> set P1" "prefix (b @ '':'') k'" by blast
          with pn [of k'] have "k' \<in> set (k # ks) \<and> k' \<notin> set P \<and> prefix (b @ '':'') k'" by auto
          then show "\<exists>k'. k' \<in> set (k # ks) \<and> k' \<notin> set P \<and> prefix (b @ '':'') k'" by blast
        qed
        ultimately show ?thesis unfolding val_def using r by simp
      next
        case same: True
        have nested_done: "k' \<in> set P1" if "k' \<in> set ks" "prefix (b @ '':'') k'" for k'
        proof -
          from that ksprops have "k' \<in> set (tagKeys ts)" "k' \<noteq> []" by auto
          moreover have "length k' \<noteq> 1"
            using prefix_colon_length [OF b(1) that(2)] by simp
          then have "k' \<noteq> ''d''" "k' \<noteq> ''t''" by fastforce+
          ultimately show ?thesis using that(2) same by (simp add: inP1 relatedTags_keys)
        qed
        then have nonest: "\<not> nest ks P1" unfolding nest_def by blast
        show ?thesis
        proof (cases "k = b")
          case bare: True
          have r: "map_of R1 b = A"
            using R1 v same bare np by (simp add: update_conv' groupValue_def A_def)
          have "\<not> bare ks P1" unfolding bare_def using kprops bare by simp
          with r nonest have "val ks P1 R1 = A" unfolding val_def by simp
          moreover have "bare (k # ks) P" unfolding bare_def using bare False by simp
          ultimately show ?thesis unfolding val_def by simp
        next
          case nested: False
          with same have pk: "prefix (b @ '':'') k" using baseKeyOf_cases by blast
          have rel: "relatedTags ts k ?bk = relatedTags ts (b @ '':'') b"
            using relatedTags_nested [OF pk, of ts] same by simp
          have r: "map_of R1 b = B"
            using R1 v same rel np by (simp add: update_conv' groupValue_def B_def)
          have pb: "b \<in> set P1 \<longleftrightarrow> b \<in> set P"
            using nested same by (simp add: inP1 relatedTags_keys not_prefix_self)
          have bb: "bare (k # ks) P = bare ks P1" unfolding bare_def using nested pb by auto
          have nn: "nest (k # ks) P" unfolding nest_def using pk False by auto
          show ?thesis unfolding val_def using bb nn nonest r by simp
        qed
      qed
    qed
    with IH show ?case by simp
  qed
  then show ?thesis unfolding val_def bare_def nest_def A_def B_def .
qed

lemma unflattenTags_group:
  assumes "unflattenTags ts l = Inr amb" and "b \<noteq> []" and "CHR '':'' \<notin> set b"
    and "b \<noteq> ''d''" and "b \<noteq> ''t''" and "b \<noteq> ''__proto__''"
  shows "map_of amb b
           = (if \<exists>k \<in> set (tagKeys ts). baseKeyOf k = b then groupValue b (relatedTags ts b b)
              else map_of (fp_result (firstPass ts l)) b)"
proof -
  let ?ks = "fp_groups (firstPass ts l)"
  let ?A = "groupValue b (relatedTags ts b b)"
  let ?B = "groupValue b (relatedTags ts (b @ '':'') b)"
  let ?R0 = "map_of (fp_result (firstPass ts l)) b"
  from assms(1) obtain P where
    run: "processGroups ts ?ks ([], fp_result (firstPass ts l)) = Inr (P, amb)"
    by (auto simp: unflattenTags_def Let_def split: sum.splits)
  have g: "map_of amb b
             = (if b \<in> set ?ks then ?A
                else if \<exists>k. k \<in> set ?ks \<and> prefix (b @ '':'') k then ?B else ?R0)"
    using processGroups_group [OF run firstPass_groups_props(1) firstPass_groups
        firstPass_groups_props(2) assms(2,3,6)]
    by simp
  show ?thesis
  proof (cases "\<exists>k \<in> set (tagKeys ts). baseKeyOf k = b")
    case ex: True
    then obtain k where k: "k \<in> set (tagKeys ts)" "baseKeyOf k = b" by blast
    have "k \<noteq> []" using k(2) assms(2) by (auto simp: baseKeyOf_takeWhile)
    moreover have "k \<noteq> ''d''" using k(2) assms(4) by (auto simp: baseKeyOf_takeWhile)
    moreover have "k \<noteq> ''t''" using k(2) assms(5) by (auto simp: baseKeyOf_takeWhile)
    ultimately have kin: "k \<in> set ?ks" using k(1) by (simp add: firstPass_groups_adds)
    have "map_of amb b = ?A"
    proof (cases "b \<in> set ?ks")
      case True
      with g show ?thesis by simp
    next
      case False
      with kin have "k \<noteq> b" by blast
      with k(2) have pk: "prefix (b @ '':'') k" using baseKeyOf_cases by blast
      with kin have "\<exists>k. k \<in> set ?ks \<and> prefix (b @ '':'') k" by blast
      with g False have amb: "map_of amb b = ?B" by simp
      have "b \<notin> set (tagKeys ts)"
      proof
        assume "b \<in> set (tagKeys ts)"
        then have "b \<in> set ?ks" using assms(2,4,5) by (rule firstPass_groups_adds)
        with False show False by simp
      qed
      then have "relatedTags ts b b = relatedTags ts (b @ '':'') b"
        by (rule relatedTags_no_bare)
      with amb show ?thesis by simp
    qed
    then show ?thesis unfolding if_P [OF ex] .
  next
    case nex: False
    have nb: "b \<notin> set ?ks"
    proof
      assume "b \<in> set ?ks"
      with firstPass_groups [of ts l] have "b \<in> set (tagKeys ts)" by blast
      moreover have "baseKeyOf b = b" using assms(3) by (rule baseKeyOf_self)
      ultimately show False using nex by blast
    qed
    have nn: "\<not> (\<exists>k. k \<in> set ?ks \<and> prefix (b @ '':'') k)"
    proof
      assume "\<exists>k. k \<in> set ?ks \<and> prefix (b @ '':'') k"
      then obtain k where k: "k \<in> set ?ks" "prefix (b @ '':'') k" by blast
      with firstPass_groups [of ts l] have "k \<in> set (tagKeys ts)" by blast
      moreover have "baseKeyOf k = b" using assms(3) k(2) by (rule baseKeyOf_prefix)
      ultimately show False using nex by blast
    qed
    from g nb nn have "map_of amb b = ?R0" by simp
    then show ?thesis unfolding if_not_P [OF nex] .
  qed
qed

text \<open>The second pass completes when every group can be reconstructed.\<close>

lemma processGroups_total:
  assumes "\<And>key. \<exists>v. reconstructProperty (relatedTags ts key (baseKeyOf key)) = Inr v"
    and "\<forall>k \<in> set ks. baseKeyOf k \<noteq> ''__proto__''"
  shows "\<exists>st'. processGroups ts ks st = Inr st'"
  using assms(2)
proof (induction ks arbitrary: st)
  case Nil
  then show ?case by simp
next
  case (Cons k ks)
  obtain v where "reconstructProperty (relatedTags ts k (baseKeyOf k)) = Inr v"
    using assms(1) by blast
  moreover have "baseKeyOf k \<noteq> ''__proto__''" using Cons.prems by simp
  ultimately have "\<exists>st1. processGroup ts k st = Inr st1"
    by (simp add: processGroup_def assignResult_def Let_def)
  with Cons.IH Cons.prems show ?case by auto
qed

section \<open>Validation in the unflattener\<close>

subsection \<open>Runs that read no inherited member\<close>

lemma navigate_own:
  "\<forall>p \<in> set parts. p \<notin> set inheritedNames \<Longrightarrow> navigate cur t parts \<noteq> Inl InheritedMember"
  by (induction cur t parts rule: navigate.induct)
     (auto simp: inheritedNames_def split: target.splits option.splits aval.splits)

lemma assign_own: "assign cur t k (AStr v) \<noteq> Inl InheritedMember"
  by (simp add: assign_def split: target.splits)

lemma assign_prefLabel_own: "assign cur t ''prefLabel'' x \<noteq> Inl InheritedMember"
  by (simp add: assign_def split: target.splits)

lemma writeLeaf_own: "writeLeaf ts i parts v cur t \<noteq> Inl InheritedMember"
  by (auto simp: writeLeaf_def Let_def assign_own assign_prefLabel_own split: option.splits)

lemma hasOwnProperty_own: "hasOwnProperty cur t k \<noteq> Inl InheritedMember"
  by (simp add: hasOwnProperty_def split: target.splits)

lemma shouldStartNewObject_own: "shouldStartNewObject cur t k \<noteq> Inl InheritedMember"
  using hasOwnProperty_own [of cur t k] hasOwnProperty_own [of cur t "''id''"]
  by (auto simp: shouldStartNewObject_def split: sum.splits bool.splits)

lemma boundary_own:
  "\<forall>p \<in> set (innerParts parts). p \<notin> set inheritedNames \<Longrightarrow>
   boundary objects cur t parts \<noteq> Inl InheritedMember"
  using shouldStartNewObject_own [of cur t "finalPart parts"]
    navigate_own [of "innerParts parts" "[]" "TObj []"]
  by (auto simp: boundary_def split: sum.splits bool.splits)

lemma set_innerParts: "set (innerParts parts) \<subseteq> set parts"
proof -
  have "set (butlast (tl parts)) \<subseteq> set (tl parts)" by (auto dest: in_set_butlastD)
  also have "\<dots> \<subseteq> set parts" by (cases parts) auto
  finally show ?thesis by (simp add: innerParts_def)
qed

lemma processTag_own:
  assumes "\<forall>p \<in> set (splitColon (fst tag)). p \<notin> set inheritedNames"
  shows "processTag ts i tag st \<noteq> Inl InheritedMember"
proof -
  have inner: "\<forall>p \<in> set (innerParts (splitColon (fst tag))). p \<notin> set inheritedNames"
    using assms set_innerParts [of "splitColon (fst tag)"] by blast
  show ?thesis
    using navigate_own [OF inner, of "snd st" "TObj []"] boundary_own [OF inner] writeLeaf_own
    by (auto simp: processTag_def Let_def split: sum.splits)
qed

lemma objectLoop_own:
  "\<forall>t \<in> set rest. \<forall>p \<in> set (splitColon (fst t)). p \<notin> set inheritedNames \<Longrightarrow>
   objectLoop ts rest i st \<noteq> Inl InheritedMember"
proof (induction rest arbitrary: i st)
  case Nil
  then show ?case by simp
next
  case (Cons t rest)
  have "processTag ts i t st \<noteq> Inl InheritedMember"
    using Cons.prems by (intro processTag_own) simp
  moreover have "objectLoop ts rest (Suc i) st' \<noteq> Inl InheritedMember" for st'
    using Cons.prems by (intro Cons.IH) simp
  ultimately show ?case by (auto split: sum.splits)
qed

lemma reconstructProperty_own:
  assumes "\<forall>t \<in> set rel. \<forall>p \<in> set (splitColon (fst t)). p \<notin> set inheritedNames"
  shows "reconstructProperty rel \<noteq> Inl InheritedMember"
  using objectLoop_own [OF assms, of rel 0 "([], [])"]
  by (auto simp: reconstructProperty_def reconstructNestedObjects_def collectObjects_def
      split: sum.splits)

lemma baseKeyOf_segment: "baseKeyOf k \<in> set (splitColon k)"
  by (cases k rule: splitColon.cases) (auto simp: baseKeyOf_def split: list.splits)

lemma processGroup_own:
  assumes "ownNames ts" and "key \<in> set (tagKeys ts)"
  shows "processGroup ts key st \<noteq> Inl InheritedMember"
proof -
  have rel: "\<forall>t \<in> set (relatedTags ts key (baseKeyOf key)).
               \<forall>p \<in> set (splitColon (fst t)). p \<notin> set inheritedNames"
  proof
    fix t assume "t \<in> set (relatedTags ts key (baseKeyOf key))"
    then have "fst t \<in> fst ` set (relatedTags ts key (baseKeyOf key))" by (rule imageI)
    then have "fst t \<in> set (tagKeys ts)" by (simp add: relatedTags_keys)
    with assms(1) show "\<forall>p \<in> set (splitColon (fst t)). p \<notin> set inheritedNames"
      by (simp add: ownNames_def)
  qed
  have "baseKeyOf key \<notin> set inheritedNames"
    using assms baseKeyOf_segment [of key] by (auto simp: ownNames_def)
  then have "baseKeyOf key \<noteq> ''__proto__''"
    by (auto simp: inheritedNames_def objectPrototypeNames_def)
  with reconstructProperty_own [OF rel] show ?thesis
    by (auto simp: processGroup_def assignResult_def Let_def split: sum.splits)
qed

lemma processGroups_own:
  "ownNames ts \<Longrightarrow> set keys \<subseteq> set (tagKeys ts) \<Longrightarrow> processGroups ts keys st \<noteq> Inl InheritedMember"
proof (induction keys arbitrary: st)
  case Nil
  then show ?case by simp
next
  case (Cons key keys)
  have "processGroup ts key st \<noteq> Inl InheritedMember"
    using Cons.prems by (intro processGroup_own) simp_all
  moreover have "processGroups ts keys st' \<noteq> Inl InheritedMember" for st'
    using Cons.prems by (intro Cons.IH) simp_all
  ultimately show ?case by (auto split: sum.splits)
qed

lemma unflattenTags_own:
  assumes "ownNames ts"
  shows "unflattenTags ts l \<noteq> Inl InheritedMember"
  using processGroups_own [OF assms firstPass_groups, of l "([], fp_result (firstPass ts l))"]
  by (auto simp: unflattenTags_def Let_def split: sum.splits)

subsection \<open>Keys that name members of the prototypes\<close>

text \<open>
  A leaf \<open>hasOwnProperty\<close> shadows the method that the next tag calls; a leaf
  \<open>__proto__\<close> is ignored by the setter; and a run that reads an inherited member, or
  that replaces the prototype of the result, has no result in this model.
\<close>

lemma shadowed_hasOwnProperty:
  "nostrToAmb (eventWithTags [[''d'', ''x''], [''name'', ''N''], [''type'', ''T''],
                              [''a:hasOwnProperty'', ''v''], [''a:b'', ''w'']]) None
     = Some (Inl conversionFailed)"
  by code_simp

lemma proto_leaf_ignored:
  "reconstructNestedObjects [(''a:b'', ''x''), (''a:__proto__'', ''v'')]
     = Inr (JObj [(''b'', JStr ''x'')])"
  by code_simp

lemma inherited_member_read:
  "nostrToAmb (eventWithTags [[''d'', ''x''], [''name'', ''N''], [''type'', ''T''],
                              [''a:constructor:c'', ''v'']]) None = None"
  "nostrToAmb (eventWithTags [[''d'', ''x''], [''name'', ''N''], [''type'', ''T''],
                              [''a:b'', ''s''], [''a:b:constructor:c'', ''v'']]) None = None"
  "nostrToAmb (eventWithTags [[''__proto__:id'', ''I''], [''name'', ''N''], [''type'', ''T'']]) None
     = None"
  by code_simp+

text \<open>
  C5, amended. An event whose kind is not 30142, or whose tags are not a list, is
  rejected with INVALID_FORMAT. Otherwise, when the reconstruction reads no member
  inherited from a built-in prototype: if it raises a run-time error the result is
  CONVERSION_FAILED; if it completes, the result is MISSING_REQUIRED_FIELD when the id is
  missing, else when the name is missing, else when the type is not a non-empty list,
  and a success with the reconstructed resource in all other cases; and without a tag of
  base key \<open>id\<close>, the id is missing exactly when the event has no \<open>d\<close> tag with a
  non-empty value. The reconstruction reads no inherited member when no segment of a tag
  key is the name of a member of a built-in prototype.
\<close>

theorem unflatten_validation:
  "(kind event \<noteq> Finite 30142 \<longrightarrow> nostrToAmb event dl = Some (Inl invalidKind))
   \<and> (kind event = Finite 30142 \<and> tags event = None \<longrightarrow>
        nostrToAmb event dl = Some (Inl invalidTags))
   \<and> (\<forall>ts. kind event = Finite 30142 \<and> tags event = Some ts
          \<and> unflattenTags ts (languageOrDefault dl) \<noteq> Inl InheritedMember \<longrightarrow>
        (unflattenTags ts (languageOrDefault dl) = Inl TypeError
           \<and> nostrToAmb event dl = Some (Inl conversionFailed))
        \<or> (\<exists>amb. unflattenTags ts (languageOrDefault dl) = Inr amb
              \<and> nostrToAmb event dl
                  = Some (if \<not> truthyValue (map_of amb ''id'') then Inl (missingField ''id (d tag)'')
                          else if \<not> truthyValue (map_of amb ''name'') then Inl (missingField ''name'')
                          else if \<not> nonEmptyArray (map_of amb ''type'') then Inl (missingField ''type'')
                          else Inr amb)
              \<and> ((\<forall>k \<in> set (tagKeys ts). baseKeyOf k \<noteq> ''id'') \<longrightarrow>
                   (truthyValue (map_of amb ''id'') \<longleftrightarrow> dTagValues ts \<noteq> []))))
   \<and> (\<forall>ts. ownNames ts \<longrightarrow> unflattenTags ts (languageOrDefault dl) \<noteq> Inl InheritedMember)
   \<and> code invalidKind = INVALID_FORMAT \<and> code invalidTags = INVALID_FORMAT
   \<and> (\<forall>what. code (missingField what) = MISSING_REQUIRED_FIELD)
   \<and> code conversionFailed = CONVERSION_FAILED"
proof -
  have idlink: "truthyValue (map_of amb ''id'') \<longleftrightarrow> dTagValues ts \<noteq> []"
    if "unflattenTags ts (languageOrDefault dl) = Inr amb"
      and "\<forall>k \<in> set (tagKeys ts). baseKeyOf k \<noteq> ''id''" for ts amb
  proof (cases "dTagValues ts = []")
    case True
    with unflattenTags_id [OF that] show ?thesis by (simp add: truthyValue_def)
  next
    case False
    then have "last (dTagValues ts) \<noteq> []" using dTagValues_nonempty [of _ ts] by simp
    with False unflattenTags_id [OF that] show ?thesis by (simp add: truthyValue_def)
  qed
  have main: "(unflattenTags ts (languageOrDefault dl) = Inl TypeError
           \<and> nostrToAmb event dl = Some (Inl conversionFailed))
        \<or> (\<exists>amb. unflattenTags ts (languageOrDefault dl) = Inr amb
              \<and> nostrToAmb event dl
                  = Some (if \<not> truthyValue (map_of amb ''id'') then Inl (missingField ''id (d tag)'')
                          else if \<not> truthyValue (map_of amb ''name'') then Inl (missingField ''name'')
                          else if \<not> nonEmptyArray (map_of amb ''type'') then Inl (missingField ''type'')
                          else Inr amb)
              \<and> ((\<forall>k \<in> set (tagKeys ts). baseKeyOf k \<noteq> ''id'') \<longrightarrow>
                   (truthyValue (map_of amb ''id'') \<longleftrightarrow> dTagValues ts \<noteq> [])))"
    if k: "kind event = Finite 30142" and t: "tags event = Some ts"
      and o: "unflattenTags ts (languageOrDefault dl) \<noteq> Inl InheritedMember" for ts
  proof (cases "unflattenTags ts (languageOrDefault dl)")
    case (Inl e)
    with o have "e = TypeError" by (cases e) simp_all
    with Inl k t show ?thesis by (simp add: nostrToAmb_def)
  next
    case (Inr amb)
    with k t idlink [OF Inr] show ?thesis by (simp add: nostrToAmb_def validateAmb_def)
  qed
  show ?thesis
    using main unflattenTags_own
    by (simp add: nostrToAmb_def invalidKind_def invalidTags_def missingField_def
        conversionFailed_def)
qed

text \<open>
  C5, as stated, fails at an event of kind 30142 with a \<open>d\<close>, a \<open>name\<close> and a \<open>type\<close>
  tag: without its last tag the event is converted, with it the conversion ends in
  CONVERSION_FAILED, which is neither a success nor one of the two errors of the claim.
\<close>

theorem unflatten_validation_counterexample:
  "kind (eventWithTags stringPathTags) = Finite 30142
   \<and> tags (eventWithTags stringPathTags) = Some stringPathTags
   \<and> nostrToAmb (eventWithTags (butlast stringPathTags)) None
       = Some (Inr [(''@context'', JArr [JStr AMB_CONTEXT, JObj [(''@language'', JStr ''de'')]]),
              (''id'', JStr ''x''), (''name'', JStr ''N''),
              (''type'', JArr [JStr ''LearningResource'']), (''a'', JObj [(''b'', JStr ''s'')])])
   \<and> nostrToAmb (eventWithTags stringPathTags) None = Some (Inl conversionFailed)
   \<and> code conversionFailed = CONVERSION_FAILED"
proof -
  have "nostrToAmb (eventWithTags (butlast stringPathTags)) None
       = Some (Inr [(''@context'', JArr [JStr AMB_CONTEXT, JObj [(''@language'', JStr ''de'')]]),
              (''id'', JStr ''x''), (''name'', JStr ''N''),
              (''type'', JArr [JStr ''LearningResource'']), (''a'', JObj [(''b'', JStr ''s'')])])"
    by code_simp
  moreover have "nostrToAmb (eventWithTags stringPathTags) None = Some (Inl conversionFailed)"
    by code_simp
  ultimately show ?thesis
    by (simp add: eventWithTags_def conversionFailed_def)
qed

text \<open>The amended C5 at one event for each outcome.\<close>

theorem unflatten_validation_witness:
  "nostrToAmb ((eventWithTags twoIdsTags)\<lparr>kind := Finite 1\<rparr>) None = Some (Inl invalidKind)
   \<and> nostrToAmb ((eventWithTags twoIdsTags)\<lparr>kind := NaN\<rparr>) None = Some (Inl invalidKind)
   \<and> nostrToAmb ((eventWithTags twoIdsTags)\<lparr>tags := None\<rparr>) None = Some (Inl invalidTags)
   \<and> nostrToAmb (eventWithTags stringPathTags) None = Some (Inl conversionFailed)
   \<and> nostrToAmb (eventWithTags []) None = Some (Inl (missingField ''id (d tag)''))
   \<and> nostrToAmb (eventWithTags [[''d'', ''x'']]) None = Some (Inl (missingField ''name''))
   \<and> nostrToAmb (eventWithTags [[''d'', ''x''], [''name'', ''N'']]) None
       = Some (Inl (missingField ''type''))
   \<and> nostrToAmb (eventWithTags twoIdsTags) None = Some (Inr twoIdsAmb)
   \<and> ownNames twoIdsTags \<and> ownNames stringPathTags"
proof -
  have o: "ownNames twoIdsTags" "ownNames stringPathTags"
    by code_simp+
  have u1: "unflattenTags stringPathTags (languageOrDefault None) = Inl TypeError"
    by code_simp
  have u2: "unflattenTags [] (languageOrDefault None) = Inr (initialResult ''de'')"
    by code_simp
  have u3: "unflattenTags [[''d'', ''x'']] (languageOrDefault None)
              = Inr (initialResult ''de'' @ [(''id'', JStr ''x'')])"
    by code_simp
  have u4: "unflattenTags [[''d'', ''x''], [''name'', ''N'']] (languageOrDefault None)
              = Inr (initialResult ''de'' @ [(''id'', JStr ''x''), (''name'', JStr ''N'')])"
    by code_simp
  have u5: "unflattenTags twoIdsTags (languageOrDefault None) = Inr twoIdsAmb"
    by code_simp
  show ?thesis
    using unflatten_validation [of "(eventWithTags twoIdsTags)\<lparr>kind := Finite 1\<rparr>" None]
      unflatten_validation [of "(eventWithTags twoIdsTags)\<lparr>kind := NaN\<rparr>" None]
      unflatten_validation [of "(eventWithTags twoIdsTags)\<lparr>tags := None\<rparr>" None]
      unflatten_validation [of "eventWithTags stringPathTags" None]
      unflatten_validation [of "eventWithTags []" None]
      unflatten_validation [of "eventWithTags [[''d'', ''x'']]" None]
      unflatten_validation [of "eventWithTags [[''d'', ''x''], [''name'', ''N'']]" None]
      unflatten_validation [of "eventWithTags twoIdsTags" None]
      o u1 u2 u3 u4 u5
    by (simp add: eventWithTags_def initialResult_def twoIdsAmb_def truthyValue_def
        nonEmptyArray_def)
qed

section \<open>Round trip of the simple fields\<close>

subsection \<open>Groups that cannot raise\<close>

lemma objectsOnly_empty [simp]: "objectsOnly []"
  by (simp add: objectsOnly_def)

lemma objectsOnly_update_leaf:
  "objectsOnly cur \<Longrightarrow> leaf \<notin> set unsafeLeaves \<Longrightarrow> objectsOnly (AList.update leaf x cur)"
  by (auto simp: objectsOnly_def update_conv' unsafeLeaves_def objectPrototypeNames_def)

lemma objectsOnly_update_object:
  "objectsOnly cur \<Longrightarrow> m \<in> set intermediateNames \<Longrightarrow> map_of sub ''hasOwnProperty'' = None \<Longrightarrow>
   objectsOnly (AList.update m (AObj sub) cur)"
  by (auto simp: objectsOnly_def update_conv' intermediateNames_def)

lemma objectsOnly_call:
  "objectsOnly cur \<Longrightarrow> hasOwnProperty cur (TObj []) k = Inr (map_of cur k \<noteq> None)"
  by (simp add: objectsOnly_def hasOwnProperty_def propAt_def)

lemma objectsOnly_call_inner:
  "objectsOnly cur \<Longrightarrow> m \<in> set intermediateNames \<Longrightarrow> map_of cur m = Some (AObj sub) \<Longrightarrow>
   hasOwnProperty cur (TObj [m]) k = Inr (map_of sub k \<noteq> None)"
  by (simp add: objectsOnly_def hasOwnProperty_def propAt_def)

lemma shouldStartNewObject_total:
  assumes "\<And>k. \<exists>b. hasOwnProperty cur t k = Inr b"
  shows "\<exists>b. shouldStartNewObject cur t finalKey = Inr b"
proof -
  obtain b1 b2 where "hasOwnProperty cur t ''id'' = Inr b1" "hasOwnProperty cur t finalKey = Inr b2"
    using assms by blast
  then show ?thesis by (cases b1) (auto simp: shouldStartNewObject_def)
qed

lemma writeLeaf_root:
  assumes "finalPart parts \<noteq> ''__proto__''"
  shows "\<exists>x. writeLeaf ts i parts v cur (TObj [])
         = Inr (if finalPart parts = ''inLanguage'' \<and> truthyProp cur (TObj []) ''prefLabel''
                then cur else AList.update (finalPart parts) x cur)"
  using assms by (auto simp: writeLeaf_def Let_def assign_def split: option.splits)

lemma writeLeaf_inner:
  assumes "map_of cur m = Some (AObj sub)" and "finalPart parts \<noteq> ''__proto__''"
  shows "\<exists>x. writeLeaf ts i parts v cur (TObj [m])
         = Inr (if finalPart parts = ''inLanguage'' \<and> truthyProp cur (TObj [m]) ''prefLabel''
                then cur else AList.update m (AObj (AList.update (finalPart parts) x sub)) cur)"
  using assms by (auto simp: writeLeaf_def Let_def assign_def split: option.splits)

lemma processTag_flat_safe:
  assumes "objectsOnly cur" and "innerParts parts = []" and "finalPart parts \<notin> set unsafeLeaves"
    and "parts = splitColon k"
  shows "\<exists>objs' cur'. processTag ts i (k, v) (objs, cur) = Inr (objs', cur') \<and> objectsOnly cur'"
proof (cases "finalPart parts = [] \<or> v = []")
  case True
  with assms show ?thesis by (simp add: processTag_def Let_def)
next
  case False
  let ?leaf = "finalPart parts"
  have np: "?leaf \<noteq> ''__proto__''"
    using assms(3) by (auto simp: unsafeLeaves_def objectPrototypeNames_def)
  obtain b where b: "shouldStartNewObject cur (TObj []) ?leaf = Inr b"
    using shouldStartNewObject_total [of cur "TObj []" ?leaf] objectsOnly_call [OF assms(1)]
    by blast
  have "\<exists>objs2 cur2. boundary objs cur (TObj []) parts = Inr (objs2, cur2, TObj [])
          \<and> objectsOnly cur2"
    using assms(1,2) b by (cases b) (simp_all add: boundary_def)
  then obtain objs2 cur2 where bnd: "boundary objs cur (TObj []) parts = Inr (objs2, cur2, TObj [])"
    and inv2: "objectsOnly cur2"
    by blast
  obtain x where w: "writeLeaf ts i parts v cur2 (TObj [])
         = Inr (if ?leaf = ''inLanguage'' \<and> truthyProp cur2 (TObj []) ''prefLabel''
                then cur2 else AList.update ?leaf x cur2)"
    using writeLeaf_root [OF np] by blast
  have "objectsOnly (if ?leaf = ''inLanguage'' \<and> truthyProp cur2 (TObj []) ''prefLabel''
                then cur2 else AList.update ?leaf x cur2)"
    using inv2 assms(3) by (simp add: objectsOnly_update_leaf)
  with False assms(2,4) bnd w show ?thesis
    by (simp add: processTag_def Let_def)
qed

lemma navigate_intermediate:
  assumes "objectsOnly cur" and "m \<in> set intermediateNames"
  shows "\<exists>cur1 sub. navigate cur (TObj []) [m] = Inr (cur1, TObj [m]) \<and> objectsOnly cur1
           \<and> map_of cur1 m = Some (AObj sub) \<and> map_of sub ''hasOwnProperty'' = None"
proof (cases "map_of cur m")
  case None
  have "m \<notin> set objectPrototypeNames" "m \<noteq> []"
    using assms(2) by (auto simp: intermediateNames_def objectPrototypeNames_def)
  moreover have "objectsOnly (AList.update m (AObj []) cur)"
    using assms by (intro objectsOnly_update_object) simp_all
  ultimately show ?thesis
    using None by (simp add: propAt_def update_conv')
next
  case (Some x)
  with assms obtain sub where x: "x = AObj sub" by (cases x) (auto simp: objectsOnly_def)
  with Some assms have "map_of sub ''hasOwnProperty'' = None" by (auto simp: objectsOnly_def)
  moreover have "m \<noteq> []" using assms(2) by (auto simp: intermediateNames_def)
  ultimately show ?thesis using Some x assms(1) by (simp add: propAt_def)
qed

lemma processTag_nested_safe:
  assumes "objectsOnly cur" and "innerParts parts = [m]" and "m \<in> set intermediateNames"
    and "parts = splitColon k" and "finalPart parts \<notin> set objectPrototypeNames"
  shows "\<exists>objs' cur'. processTag ts i (k, v) (objs, cur) = Inr (objs', cur') \<and> objectsOnly cur'"
proof (cases "finalPart parts = [] \<or> v = []")
  case True
  with assms show ?thesis by (simp add: processTag_def Let_def)
next
  case False
  let ?leaf = "finalPart parts"
  have np: "?leaf \<noteq> ''__proto__''" and nh: "?leaf \<noteq> ''hasOwnProperty''"
    using assms(5) by (auto simp: objectPrototypeNames_def)
  obtain cur1 sub1 where nav: "navigate cur (TObj []) [m] = Inr (cur1, TObj [m])"
    and inv1: "objectsOnly cur1" and m1: "map_of cur1 m = Some (AObj sub1)"
    and h1: "map_of sub1 ''hasOwnProperty'' = None"
    using navigate_intermediate [OF assms(1,3)] by blast
  obtain curF subF where navF: "navigate [] (TObj []) [m] = Inr (curF, TObj [m])"
    and invF: "objectsOnly curF" and mF: "map_of curF m = Some (AObj subF)"
    and hF: "map_of subF ''hasOwnProperty'' = None"
    using navigate_intermediate [OF objectsOnly_empty assms(3)] by blast
  obtain b where b: "shouldStartNewObject cur1 (TObj [m]) ?leaf = Inr b"
    using shouldStartNewObject_total [of cur1 "TObj [m]" ?leaf]
      objectsOnly_call_inner [OF inv1 assms(3) m1]
    by blast
  have "\<exists>objs2 cur2 sub2. boundary objs cur1 (TObj [m]) parts = Inr (objs2, cur2, TObj [m])
          \<and> objectsOnly cur2 \<and> map_of cur2 m = Some (AObj sub2)
          \<and> map_of sub2 ''hasOwnProperty'' = None"
  proof (cases b)
    case True
    with b have "boundary objs cur1 (TObj [m]) parts = Inr (objs @ [cur1], curF, TObj [m])"
      unfolding boundary_def assms(2) navF by simp
    with invF mF hF show ?thesis by blast
  next
    case False
    with b have "boundary objs cur1 (TObj [m]) parts = Inr (objs, cur1, TObj [m])"
      unfolding boundary_def by simp
    with inv1 m1 h1 show ?thesis by blast
  qed
  then obtain objs2 cur2 sub2
    where bnd: "boundary objs cur1 (TObj [m]) parts = Inr (objs2, cur2, TObj [m])"
    and inv2: "objectsOnly cur2" and m2: "map_of cur2 m = Some (AObj sub2)"
    and h2: "map_of sub2 ''hasOwnProperty'' = None"
    by blast
  obtain x where w: "writeLeaf ts i parts v cur2 (TObj [m])
         = Inr (if ?leaf = ''inLanguage'' \<and> truthyProp cur2 (TObj [m]) ''prefLabel''
                then cur2 else AList.update m (AObj (AList.update ?leaf x sub2)) cur2)"
    using writeLeaf_inner [OF m2 np] by blast
  have "map_of (AList.update ?leaf x sub2) ''hasOwnProperty'' = None"
    using h2 nh by (simp add: update_conv')
  then have "objectsOnly (if ?leaf = ''inLanguage'' \<and> truthyProp cur2 (TObj [m]) ''prefLabel''
                then cur2 else AList.update m (AObj (AList.update ?leaf x sub2)) cur2)"
    using inv2 assms(3) by (simp add: objectsOnly_update_object)
  with False assms(2,4) nav bnd w show ?thesis
    by (simp add: processTag_def Let_def)
qed

lemma processTag_safe:
  assumes "objectsOnly cur" and "safeKey k"
  shows "\<exists>objs' cur'. processTag ts i (k, v) (objs, cur) = Inr (objs', cur') \<and> objectsOnly cur'"
proof -
  from assms(2) consider a where "splitColon k = [a]" "a \<notin> set unsafeLeaves"
    | a leaf where "splitColon k = [a, leaf]" "leaf \<notin> set unsafeLeaves"
    | a m leaf where "splitColon k = [a, m, leaf]" "m \<in> set intermediateNames"
        "leaf \<notin> set objectPrototypeNames"
    by (auto simp: safeKey_def split: list.splits)
  then show ?thesis
  proof cases
    case 1
    then show ?thesis
      using processTag_flat_safe [OF assms(1), of "splitColon k" k]
      by (simp add: innerParts_def finalPart_def)
  next
    case 2
    then show ?thesis
      using processTag_flat_safe [OF assms(1), of "splitColon k" k]
      by (simp add: innerParts_def finalPart_def)
  next
    case 3
    then show ?thesis
      using processTag_nested_safe [OF assms(1), of "splitColon k" m k]
      by (simp add: innerParts_def finalPart_def)
  qed
qed

lemma safeKey_base: "safeKey k \<Longrightarrow> baseKeyOf k \<noteq> ''__proto__''"
  by (auto simp: safeKey_def baseKeyOf_def unsafeLeaves_def objectPrototypeNames_def
      split: list.splits)

lemma objectLoop_safe:
  assumes "\<forall>t \<in> set rest. safeKey (fst t)" and "objectsOnly cur"
  shows "\<exists>st. objectLoop ts rest i (objs, cur) = Inr st"
  using assms
proof (induction rest arbitrary: i objs cur)
  case Nil
  then show ?case by simp
next
  case (Cons t rest)
  obtain k v where t: "t = (k, v)" by (cases t)
  with Cons.prems have "safeKey k" by simp
  from processTag_safe [OF Cons.prems(2) this] obtain objs' cur'
    where p: "processTag ts i (k, v) (objs, cur) = Inr (objs', cur')" and inv: "objectsOnly cur'"
    by blast
  have "\<forall>t \<in> set rest. safeKey (fst t)" using Cons.prems(1) by simp
  from Cons.IH [OF this inv, of "Suc i" objs'] obtain st
    where "objectLoop ts rest (Suc i) (objs', cur') = Inr st" by blast
  with p t show ?case by simp
qed

lemma reconstructProperty_safe:
  assumes "\<forall>t \<in> set rel. safeKey (fst t)"
  shows "\<exists>v. reconstructProperty rel = Inr v"
proof -
  from objectLoop_safe [OF assms objectsOnly_empty] obtain st
    where "objectLoop rel rel 0 ([], []) = Inr st" by blast
  then have "\<exists>v. reconstructNestedObjects rel = Inr v"
    by (cases st) (simp add: reconstructNestedObjects_def collectObjects_def)
  then show ?thesis by (auto simp: reconstructProperty_def)
qed

lemma unflattenTags_safe:
  assumes "\<forall>k \<in> set (tagKeys ts). safeKey k"
  shows "\<exists>amb. unflattenTags ts l = Inr amb"
proof -
  have "\<exists>v. reconstructProperty (relatedTags ts key (baseKeyOf key)) = Inr v" for key
  proof (rule reconstructProperty_safe, rule ballI)
    fix t assume "t \<in> set (relatedTags ts key (baseKeyOf key))"
    then have "fst t \<in> fst ` set (relatedTags ts key (baseKeyOf key))" by (rule imageI)
    then have "fst t \<in> set (tagKeys ts)" by (simp add: relatedTags_keys)
    with assms show "safeKey (fst t)" by blast
  qed
  moreover have "\<forall>k \<in> set (fp_groups (firstPass ts l)). baseKeyOf k \<noteq> ''__proto__''"
    using firstPass_groups [of ts l] assms safeKey_base by blast
  ultimately
  obtain st' where "processGroups ts (fp_groups (firstPass ts l)) ([], fp_result (firstPass ts l)) = Inr st'"
    using processGroups_total by blast
  then show ?thesis by (cases st') (simp add: unflattenTags_def Let_def)
qed

subsection \<open>The keys that the flattener emits\<close>

lemma tagKeys_append: "tagKeys (xs @ ys) = tagKeys xs @ tagKeys ys"
  by (induction xs) (auto simp: tagKeys_def map_filter_simps split: list.splits)

lemma tagKeys_Nil [simp]: "tagKeys [] = []"
  by (simp add: tagKeys_def map_filter_simps)

lemma tagKeys_createTag [simp]: "tagKeys (createTag k v # ts) = k # tagKeys ts"
  by (simp add: tagKeys_def map_filter_simps createTag_def)

lemma allKeys_Nil [simp]: "allKeys Q []"
  by (simp add: allKeys_def)

lemma allKeys_append [simp]: "allKeys Q (xs @ ys) \<longleftrightarrow> allKeys Q xs \<and> allKeys Q ys"
  by (auto simp: allKeys_def tagKeys_append)

lemma allKeys_createTag [simp]: "allKeys Q (createTag k v # ts) \<longleftrightarrow> Q k \<and> allKeys Q ts"
  by (simp add: allKeys_def)

lemma allKeys_tagIf: "Q k \<Longrightarrow> allKeys Q (tagIf k x)"
  by (simp add: tagIf_def split: option.splits)

lemma allKeys_concat: "(\<And>y. y \<in> set ys \<Longrightarrow> allKeys Q (f y)) \<Longrightarrow> allKeys Q (concat (map f ys))"
  by (induction ys) simp_all

lemma allKeys_forEachOpt: "(\<And>y. allKeys Q (f y)) \<Longrightarrow> allKeys Q (forEachOpt xs f)"
  by (cases xs) (simp_all add: forEachOpt_def allKeys_concat)

lemma allKeys_map_createTag: "Q k \<Longrightarrow> allKeys Q (map (createTag k) vs)"
  by (induction vs) simp_all

lemma allKeys_mono: "allKeys Q ts \<Longrightarrow> (\<And>k. Q k \<Longrightarrow> Q' k) \<Longrightarrow> allKeys Q' ts"
  by (auto simp: allKeys_def)

lemma splitColon_plain: "CHR '':'' \<notin> set a \<Longrightarrow> splitColon a = [a]"
  by (induction a) auto

lemma splitColon_colon: "CHR '':'' \<notin> set a \<Longrightarrow> splitColon (a @ CHR '':'' # rest) = a # splitColon rest"
  by (induction a) auto

lemma safeKey_flat: "CHR '':'' \<notin> set k \<Longrightarrow> k \<notin> set unsafeLeaves \<Longrightarrow> safeKey k"
  by (simp add: safeKey_def splitColon_plain)

lemma safeKey_prefLabel:
  "CHR '':'' \<notin> set base \<Longrightarrow> CHR '':'' \<notin> set l \<Longrightarrow> base \<notin> set objectPrototypeNames \<Longrightarrow>
   l \<notin> set objectPrototypeNames \<Longrightarrow> safeKey (base @ '':prefLabel:'' @ l)"
  using splitColon_colon [of base "''prefLabel:'' @ l"] splitColon_colon [of "''prefLabel''" l]
  by (simp add: safeKey_def splitColon_plain intermediateNames_def unsafeLeaves_def objectPrototypeNames_def)

lemma safeKey_leaf:
  "CHR '':'' \<notin> set base \<Longrightarrow> CHR '':'' \<notin> set leaf \<Longrightarrow> leaf \<notin> set unsafeLeaves \<Longrightarrow>
   base \<notin> set objectPrototypeNames \<Longrightarrow> safeKey (base @ CHR '':'' # leaf)"
  by (simp add: safeKey_def splitColon_colon splitColon_plain)

lemma baseKeyOf_colon: "CHR '':'' \<notin> set base \<Longrightarrow> baseKeyOf (base @ CHR '':'' # rest) = base"
  using baseKeyOf_prefix [of base "base @ CHR '':'' # rest"] by simp

lemma keyOf_flat:
  "CHR '':'' \<notin> set k \<Longrightarrow> k \<notin> set unsafeLeaves \<Longrightarrow> k \<in> set bases \<Longrightarrow> keyOf bases k"
  by (simp add: keyOf_def safeKey_flat baseKeyOf_self)

lemma keyOf_leaf:
  "CHR '':'' \<notin> set base \<Longrightarrow> CHR '':'' \<notin> set leaf \<Longrightarrow> leaf \<notin> set unsafeLeaves \<Longrightarrow>
   base \<notin> set objectPrototypeNames \<Longrightarrow> base \<in> set bases \<Longrightarrow>
   keyOf bases (base @ CHR '':'' # leaf)"
  by (simp add: keyOf_def safeKey_leaf baseKeyOf_colon)

lemma keyOf_prefLabel:
  "CHR '':'' \<notin> set base \<Longrightarrow> CHR '':'' \<notin> set l \<Longrightarrow> base \<notin> set objectPrototypeNames \<Longrightarrow>
   l \<notin> set objectPrototypeNames \<Longrightarrow> base \<in> set bases \<Longrightarrow>
   keyOf bases (base @ '':prefLabel:'' @ l)"
  using safeKey_prefLabel [of base l] baseKeyOf_colon [of base "''prefLabel:'' @ l"]
  by (simp add: keyOf_def)

lemma keyOf_mono: "keyOf bases k \<Longrightarrow> set bases \<subseteq> set bases' \<Longrightarrow> keyOf bases' k"
  by (auto simp: keyOf_def)

lemma coreTags_keys:
  "allKeys (keyOf [''d'', ''type'', ''name'', ''description'', ''t'', ''inLanguage'']) (coreTags ident nm r)"
  by (simp add: coreTags_def allKeys_tagIf allKeys_forEachOpt allKeys_map_createTag keyOf_flat
      intermediateNames_def unsafeLeaves_def objectPrototypeNames_def)

lemma creatorTags_keys: "allKeys (keyOf [''creator'', ''publisher'']) (creatorTags a)"
  by (simp add: creatorTags_def affiliationTags_def allKeys_tagIf keyOf_def safeKey_def
      baseKeyOf_takeWhile intermediateNames_def unsafeLeaves_def objectPrototypeNames_def split: Agent.splits option.splits)

lemma publisherTags_keys: "allKeys (keyOf [''creator'', ''publisher'']) (publisherTags a)"
  by (simp add: publisherTags_def allKeys_tagIf keyOf_def safeKey_def
      baseKeyOf_takeWhile intermediateNames_def unsafeLeaves_def objectPrototypeNames_def)

lemma agentBlockTags_keys: "allKeys (keyOf [''creator'', ''publisher'']) (agentBlockTags r)"
  by (simp add: agentBlockTags_def allKeys_forEachOpt creatorTags_keys publisherTags_keys)

lemma allKeys_map: "(\<And>y. y \<in> set ys \<Longrightarrow> Q (fst (g y))) \<Longrightarrow> allKeys Q (map (\<lambda>y. createTag (fst (g y)) (snd (g y))) ys)"
  by (induction ys) simp_all

lemma conceptTags_keys:
  assumes "CHR '':'' \<notin> set base" and "plainConcept c" and "base \<in> set bases"
    and "base \<notin> set objectPrototypeNames"
  shows "allKeys (keyOf bases) (conceptTags base c)"
proof -
  have idk: "keyOf bases (base @ '':id'')"
    using keyOf_leaf [OF assms(1) _ _ assms(4) assms(3), of "''id''"]
    by (simp add: intermediateNames_def unsafeLeaves_def objectPrototypeNames_def)
  have tyk: "keyOf bases (base @ '':type'')"
    using keyOf_leaf [OF assms(1) _ _ assms(4) assms(3), of "''type''"]
    by (simp add: intermediateNames_def unsafeLeaves_def objectPrototypeNames_def)
  have lab: "allKeys (keyOf bases)
               (map (\<lambda>(lang, label). createTag (base @ '':prefLabel:'' @ lang) label) entries)"
    if "prefLabel c = Some entries" for entries
  proof -
    have "\<forall>l \<in> set (map fst entries). CHR '':'' \<notin> set l \<and> l \<notin> set objectPrototypeNames"
      using assms(2) that by (simp add: plainConcept_def)
    then show ?thesis
    proof (induction entries)
      case Nil
      then show ?case by simp
    next
      case (Cons e es)
      then show ?case
        using keyOf_prefLabel [OF assms(1) _ assms(4) _ assms(3), of "fst e"]
        by (cases e) simp
    qed
  qed
  show ?thesis
    using idk tyk lab by (simp add: conceptTags_def allKeys_tagIf split: option.splits)
qed

lemma plainLanguages_parts:
  assumes "plainLanguages r"
  shows "conditionsOfAccess r = Some c \<Longrightarrow> plainConcept c"
    and "about r = Some cs \<Longrightarrow> c \<in> set cs \<Longrightarrow> plainConcept c"
    and "educationalLevel r = Some cs \<Longrightarrow> c \<in> set cs \<Longrightarrow> plainConcept c"
    and "audience r = Some cs \<Longrightarrow> c \<in> set cs \<Longrightarrow> plainConcept c"
    and "learningResourceType r = Some cs \<Longrightarrow> c \<in> set cs \<Longrightarrow> plainConcept c"
  using assms by (auto simp: plainLanguages_def conceptsOf_def)

lemma allKeys_forEachOpt_in:
  "(\<And>ys y. xs = Some ys \<Longrightarrow> y \<in> set ys \<Longrightarrow> allKeys Q (f y)) \<Longrightarrow> allKeys Q (forEachOpt xs f)"
  by (cases xs) (simp_all add: forEachOpt_def allKeys_concat)

lemma accessTags_keys:
  assumes "plainLanguages r"
  shows "allKeys (keyOf [''license'', ''isAccessibleForFree'', ''conditionsOfAccess'']) (accessTags r)"
proof -
  have "allKeys (keyOf [''license'', ''isAccessibleForFree'', ''conditionsOfAccess''])
          (conceptTags ''conditionsOfAccess'' c)" if "conditionsOfAccess r = Some c" for c
    using conceptTags_keys [of "''conditionsOfAccess''" c] plainLanguages_parts(1) [OF assms that]
    by (simp add: objectPrototypeNames_def)
  then show ?thesis
    by (simp add: accessTags_def allKeys_tagIf keyOf_def safeKey_def baseKeyOf_takeWhile
        intermediateNames_def unsafeLeaves_def objectPrototypeNames_def split: option.splits)
qed

lemma conceptBlockTags_keys:
  assumes "plainLanguages r"
  shows "allKeys (keyOf [''about'', ''educationalLevel'', ''audience'', ''learningResourceType''])
           (conceptBlockTags r)"
  unfolding conceptBlockTags_def allKeys_append
  by (intro conjI allKeys_forEachOpt_in conceptTags_keys)
     (simp_all add: plainLanguages_parts [OF assms] objectPrototypeNames_def)

lemma trailingTags_keys:
  "allKeys (keyOf [''datePublished'', ''dateCreated'', ''image'', ''r'']) (trailingTags r options)"
  by (simp add: trailingTags_def allKeys_tagIf allKeys_forEachOpt keyOf_flat intermediateNames_def unsafeLeaves_def objectPrototypeNames_def)

lemma referenceTags_keys:
  assumes "base \<in> {''hasPart'', ''isPartOf''}"
  shows "allKeys (keyOf [''hasPart'', ''isPartOf'', ''isBasedOn'']) (referenceTags base p)"
proof -
  have "keyOf [''hasPart'', ''isPartOf'', ''isBasedOn''] (base @ '':id'')"
    "keyOf [''hasPart'', ''isPartOf'', ''isBasedOn''] (base @ '':name'')"
    "keyOf [''hasPart'', ''isPartOf'', ''isBasedOn''] (base @ '':type'')"
    using assms by (auto simp: keyOf_def safeKey_def baseKeyOf_takeWhile intermediateNames_def unsafeLeaves_def objectPrototypeNames_def)
  then show ?thesis
    by (simp add: referenceTags_def allKeys_tagIf allKeys_map_createTag split: option.splits)
qed

lemma relationshipTags_keys:
  "allKeys (keyOf [''hasPart'', ''isPartOf'', ''isBasedOn'']) (relationshipTags r)"
proof -
  have "allKeys (keyOf [''hasPart'', ''isPartOf'', ''isBasedOn'']) (basedOnTags s)" for s
    by (simp add: basedOnTags_def allKeys_tagIf keyOf_def safeKey_def baseKeyOf_takeWhile
        intermediateNames_def unsafeLeaves_def objectPrototypeNames_def)
  then show ?thesis
    by (simp add: relationshipTags_def allKeys_forEachOpt referenceTags_keys)
qed

lemma flattenTags_safe:
  assumes "plainLanguages r"
  shows "allKeys safeKey (flattenTags ident nm r options)"
  unfolding flattenTags_def allKeys_append
  using allKeys_mono [OF coreTags_keys, of safeKey ident nm r]
    allKeys_mono [OF agentBlockTags_keys, of safeKey r]
    allKeys_mono [OF accessTags_keys [OF assms], of safeKey]
    allKeys_mono [OF conceptBlockTags_keys [OF assms], of safeKey]
    allKeys_mono [OF trailingTags_keys, of safeKey r options]
    allKeys_mono [OF relationshipTags_keys, of safeKey r]
  by (simp add: keyOf_def)

subsection \<open>The groups of a flattened resource\<close>

lemma relatedTags_createTag:
  "relatedTags (createTag k v # ts) key b
     = (if selected key b k then (k, v) # relatedTags ts key b else relatedTags ts key b)"
  by (simp add: createTag_def selected_def)

lemma relatedTags_tagIf:
  "relatedTags (tagIf k x) key b
     = (if selected key b k then (case x of None \<Rightarrow> [] | Some v \<Rightarrow> if v \<noteq> [] then [(k, v)] else [])
        else [])"
  by (simp add: tagIf_def createTag_def selected_def split: option.splits)

lemma relatedTags_map_createTag:
  "relatedTags (map (createTag k) vs) key b = (if selected key b k then map (Pair k) vs else [])"
  by (induction vs) (simp_all add: relatedTags_createTag del: relatedTags.simps(2))

lemma relatedTags_forEach_single:
  "relatedTags (forEachOpt xs (\<lambda>y. [createTag k (g y)])) key b
     = (if selected key b k then (case xs of None \<Rightarrow> [] | Some ys \<Rightarrow> map (\<lambda>y. (k, g y)) ys) else [])"
proof (cases xs)
  case None
  then show ?thesis by (simp add: forEachOpt_def)
next
  case (Some ys)
  have "relatedTags (concat (map (\<lambda>y. [createTag k (g y)]) ys)) key b
          = (if selected key b k then map (\<lambda>y. (k, g y)) ys else [])"
    by (induction ys) (simp_all add: relatedTags_createTag del: relatedTags.simps(2))
  with Some show ?thesis by (simp add: forEachOpt_def)
qed

lemma baseKeyOf_selected:
  assumes "CHR '':'' \<notin> set b" and "k = b \<or> prefix (b @ '':'') k"
  shows "baseKeyOf k = b"
  using assms(2)
proof
  assume "k = b"
  show ?thesis unfolding \<open>k = b\<close> by (rule baseKeyOf_self [OF assms(1)])
next
  assume "prefix (b @ '':'') k"
  with assms(1) show ?thesis by (rule baseKeyOf_prefix)
qed

lemma relatedTags_none:
  assumes "allKeys (\<lambda>k. baseKeyOf k \<noteq> b) ts" and "CHR '':'' \<notin> set b"
  shows "relatedTags ts b b = []"
proof (cases "relatedTags ts b b")
  case Nil
  then show ?thesis .
next
  case (Cons t rest)
  then have "fst t \<in> fst ` set (relatedTags ts b b)" by simp
  note k = relatedTags_keys [THEN iffD1, OF this]
  from k have "fst t \<in> set (tagKeys ts)" by (rule conjunct1)
  with assms(1) have "baseKeyOf (fst t) \<noteq> b" unfolding allKeys_def by (rule bspec)
  moreover from k have "fst t = b \<or> prefix (b @ '':'') (fst t)" by (elim conjE)
  with assms(2) have "baseKeyOf (fst t) = b" by (rule baseKeyOf_selected)
  ultimately show ?thesis by (rule notE)
qed

lemma relatedTags_block:
  "allKeys (keyOf bases) ts \<Longrightarrow> b \<notin> set bases \<Longrightarrow> CHR '':'' \<notin> set b \<Longrightarrow> relatedTags ts b b = []"
  by (rule relatedTags_none) (auto simp: allKeys_def keyOf_def)

lemma relatedTags_nonempty_iff:
  assumes "b \<noteq> []" and "CHR '':'' \<notin> set b" and "b \<noteq> ''d''" and "b \<noteq> ''t''"
  shows "relatedTags ts b b \<noteq> [] \<longleftrightarrow> (\<exists>k \<in> set (tagKeys ts). baseKeyOf k = b)"
proof
  assume "relatedTags ts b b \<noteq> []"
  then obtain t rest where "relatedTags ts b b = t # rest"
    by (cases "relatedTags ts b b") simp_all
  then have "fst t \<in> fst ` set (relatedTags ts b b)" by simp
  note k = relatedTags_keys [THEN iffD1, OF this]
  from k have in_keys: "fst t \<in> set (tagKeys ts)" by (rule conjunct1)
  from k have "fst t = b \<or> prefix (b @ '':'') (fst t)" by (elim conjE)
  with assms(2) have "baseKeyOf (fst t) = b" by (rule baseKeyOf_selected)
  with in_keys show "\<exists>k \<in> set (tagKeys ts). baseKeyOf k = b" by (rule bexI [rotated])
next
  assume "\<exists>k \<in> set (tagKeys ts). baseKeyOf k = b"
  then obtain k where k: "k \<in> set (tagKeys ts)" "baseKeyOf k = b" by (elim bexE)
  have "k \<noteq> []" using k(2) assms(1) by (auto simp: baseKeyOf_takeWhile)
  moreover have "k \<noteq> ''d''" using k(2) assms(3) by (auto simp: baseKeyOf_takeWhile)
  moreover have "k \<noteq> ''t''" using k(2) assms(4) by (auto simp: baseKeyOf_takeWhile)
  moreover have "k = b \<or> prefix (b @ '':'') k" using k(2) by (rule baseKeyOf_cases)
  ultimately have "k \<in> fst ` set (relatedTags ts b b)"
    using k(1) relatedTags_keys [of k ts b b] by (simp only: simp_thms)
  then show "relatedTags ts b b \<noteq> []" by (cases "relatedTags ts b b") simp_all
qed

lemma unflattenTags_property:
  assumes "unflattenTags ts l = Inr amb" and "b \<noteq> []" and "CHR '':'' \<notin> set b"
    and "b \<noteq> ''d''" and "b \<noteq> ''t''" and "b \<noteq> ''__proto__''"
  shows "map_of amb b
           = (if relatedTags ts b b \<noteq> [] then groupValue b (relatedTags ts b b)
              else map_of (fp_result (firstPass ts l)) b)"
  using unflattenTags_group [OF assms] relatedTags_nonempty_iff [OF assms(2-5), of ts]
  by simp

subsection \<open>The first pass on any tags\<close>

lemma tTagValues_Nil [simp]: "tTagValues [] = []"
  by (simp add: tTagValues_def map_filter_simps)

lemma tTagValues_Cons:
  "tTagValues (tag # ts)
     = (case tag of k # v # _ \<Rightarrow> if k = ''t'' \<and> v \<noteq> [] then v # tTagValues ts else tTagValues ts
        | _ \<Rightarrow> tTagValues ts)"
  by (simp add: tTagValues_def map_filter_simps split: list.splits)

lemma groupTag_keywords:
  "fp_keywords (groupTag tag st) = fp_keywords st @ tTagValues [tag]"
  by (simp add: groupTag_def tTagValues_Cons split: list.splits)

lemma fold_groupTag_keywords:
  "fp_keywords (fold groupTag ts st) = fp_keywords st @ tTagValues ts"
proof (induction ts arbitrary: st)
  case Nil
  then show ?case by simp
next
  case (Cons tag ts)
  have "tTagValues (tag # ts) = tTagValues [tag] @ tTagValues ts"
    by (simp add: tTagValues_Cons split: list.splits)
  then show ?case by (simp add: Cons.IH groupTag_keywords)
qed

lemma groupTag_result_other:
  "b \<noteq> ''id'' \<Longrightarrow> map_of (fp_result (groupTag tag st)) b = map_of (fp_result st) b"
  by (simp add: groupTag_def update_conv' split: list.splits)

lemma fold_groupTag_result_other:
  "b \<noteq> ''id'' \<Longrightarrow> map_of (fp_result (fold groupTag ts st)) b = map_of (fp_result st) b"
  by (induction ts arbitrary: st) (simp_all add: groupTag_result_other)

lemma firstPass_keywords:
  "map_of (fp_result (firstPass ts l)) ''keywords''
     = (if tTagValues ts = [] then None else Some (JArr (map JStr (tTagValues ts))))"
  by (simp add: firstPass_def Let_def fold_groupTag_keywords fold_groupTag_result_other
      update_conv' initialResult_def)

lemma firstPass_other:
  assumes "b \<noteq> ''id''" and "b \<noteq> ''keywords''" and "b \<noteq> ''@context''"
  shows "map_of (fp_result (firstPass ts l)) b = None"
  using assms
  by (simp add: firstPass_def Let_def fold_groupTag_result_other update_conv' initialResult_def)

lemma dTagValues_append: "dTagValues (xs @ ys) = dTagValues xs @ dTagValues ys"
  by (induction xs) (simp_all add: dTagValues_Cons split: list.splits)

lemma tTagValues_append: "tTagValues (xs @ ys) = tTagValues xs @ tTagValues ys"
  by (induction xs) (simp_all add: tTagValues_Cons split: list.splits)

lemma dTagValues_none: "allKeys (\<lambda>k. k \<noteq> ''d'') ts \<Longrightarrow> dTagValues ts = []"
proof (induction ts)
  case Nil
  then show ?case by simp
next
  case (Cons tag ts)
  then show ?case
    by (cases tag rule: list.exhaust; cases "tl tag")
       (auto simp: dTagValues_Cons allKeys_def tagKeys_Cons [of tag ts] tagKeys_def
          map_filter_simps)
qed

lemma tTagValues_none: "allKeys (\<lambda>k. k \<noteq> ''t'') ts \<Longrightarrow> tTagValues ts = []"
proof (induction ts)
  case Nil
  then show ?case by simp
next
  case (Cons tag ts)
  then show ?case
    by (cases tag rule: list.exhaust; cases "tl tag")
       (auto simp: tTagValues_Cons allKeys_def tagKeys_Cons [of tag ts] tagKeys_def
          map_filter_simps)
qed

lemma dTagValues_block: "allKeys (keyOf bases) ts \<Longrightarrow> ''d'' \<notin> set bases \<Longrightarrow> dTagValues ts = []"
  by (rule dTagValues_none) (auto simp: allKeys_def keyOf_def baseKeyOf_takeWhile)

lemma tTagValues_block: "allKeys (keyOf bases) ts \<Longrightarrow> ''t'' \<notin> set bases \<Longrightarrow> tTagValues ts = []"
  by (rule tTagValues_none) (auto simp: allKeys_def keyOf_def baseKeyOf_takeWhile)

subsection \<open>Flat groups\<close>

lemma reconstructProperty_flat:
  assumes "CHR '':'' \<notin> set k"
  shows "reconstructProperty (map (Pair k) vs)
           = Inr (case vs of [v] \<Rightarrow> JStr v | _ \<Rightarrow> JArr (map JStr vs))"
proof -
  have "\<not> (\<exists>t \<in> set (map (Pair k) vs). CHR '':'' \<in> set (fst t))"
    using assms by auto
  then have "reconstructProperty (map (Pair k) vs)
          = Inr (case map (Pair k) vs of [t] \<Rightarrow> JStr (snd t)
                 | _ \<Rightarrow> JArr (map (\<lambda>t. JStr (snd t)) (map (Pair k) vs)))"
    unfolding reconstructProperty_def by (rule if_not_P)
  also have "\<dots> = Inr (case vs of [v] \<Rightarrow> JStr v | _ \<Rightarrow> JArr (map JStr vs))"
    by (cases vs rule: list.exhaust; cases "tl vs") (auto simp: comp_def)
  finally show ?thesis .
qed

lemma groupValue_array:
  assumes "CHR '':'' \<notin> set k" and "k \<in> set arrayFields"
  shows "groupValue k (map (Pair k) vs) = Some (JArr (map JStr vs))"
proof -
  have "coerceArray k (case vs of [v] \<Rightarrow> JStr v | _ \<Rightarrow> JArr (map JStr vs)) = JArr (map JStr vs)"
    using assms(2) by (cases vs rule: list.exhaust; cases "tl vs") (auto simp: coerceArray_def)
  then show ?thesis
    by (simp add: groupValue_def reconstructProperty_flat [OF assms(1)])
qed

lemma groupValue_scalar:
  assumes "CHR '':'' \<notin> set k" and "k \<notin> set arrayFields"
  shows "groupValue k [(k, v)] = Some (JStr v)"
  using assms(2) reconstructProperty_flat [OF assms(1), of "[v]"]
  by (simp add: groupValue_def coerceArray_def)

subsection \<open>The tags of a flattened resource\<close>

lemma flattenTags_split: "flattenTags ident nm r options = coreTags ident nm r @ restTags r options"
  by (simp add: flattenTags_def restTags_def)

lemma allKeys_keyOf_mono:
  "allKeys (keyOf bases) ts \<Longrightarrow> set bases \<subseteq> set bases' \<Longrightarrow> allKeys (keyOf bases') ts"
  by (auto simp: allKeys_def keyOf_def)

lemma restTags_keys:
  assumes "plainLanguages r"
  shows "allKeys (keyOf otherBases) (restTags r options)"
proof -
  have "allKeys (keyOf otherBases) (agentBlockTags r)"
    by (rule allKeys_keyOf_mono [OF agentBlockTags_keys]) (simp add: otherBases_def)
  moreover have "allKeys (keyOf otherBases) (accessTags r)"
    by (rule allKeys_keyOf_mono [OF accessTags_keys [OF assms]]) (simp add: otherBases_def)
  moreover have "allKeys (keyOf otherBases) (conceptBlockTags r)"
    by (rule allKeys_keyOf_mono [OF conceptBlockTags_keys [OF assms]]) (simp add: otherBases_def)
  moreover have "allKeys (keyOf otherBases) (trailingTags r options)"
    by (rule allKeys_keyOf_mono [OF trailingTags_keys]) (simp add: otherBases_def)
  moreover have "allKeys (keyOf otherBases) (relationshipTags r)"
    by (rule allKeys_keyOf_mono [OF relationshipTags_keys]) (simp add: otherBases_def)
  ultimately show ?thesis by (simp add: restTags_def)
qed

lemma coreTags_keys': "allKeys (keyOf coreBases) (coreTags ident nm r)"
  using coreTags_keys by (simp add: coreBases_def)

lemma flattenTags_keys:
  assumes "plainLanguages r"
  shows "allKeys (keyOf (coreBases @ otherBases)) (flattenTags ident nm r options)"
  unfolding flattenTags_split allKeys_append
  by (intro conjI allKeys_keyOf_mono [OF coreTags_keys'] allKeys_keyOf_mono [OF restTags_keys [OF assms]])
     simp_all

lemma relatedTags_core:
  assumes "plainLanguages r" and "b \<notin> set otherBases" and "CHR '':'' \<notin> set b"
  shows "relatedTags (flattenTags ident nm r options) b b = relatedTags (coreTags ident nm r) b b"
  using relatedTags_block [OF restTags_keys [OF assms(1)] assms(2,3)]
  by (simp add: flattenTags_split relatedTags_append)

lemma relatedTags_rest:
  assumes "b \<notin> set coreBases" and "CHR '':'' \<notin> set b"
  shows "relatedTags (flattenTags ident nm r options) b b = relatedTags (restTags r options) b b"
  using relatedTags_block [OF coreTags_keys' assms]
  by (simp add: flattenTags_split relatedTags_append)

lemmas related_simps =
  relatedTags_append relatedTags_createTag relatedTags_tagIf relatedTags_map_createTag
  relatedTags_forEach_single selected_def

lemma coreTags_name: "relatedTags (coreTags ident nm r) ''name'' ''name'' = [(''name'', nm)]"
  by (simp add: coreTags_def related_simps del: relatedTags.simps(2))

lemma coreTags_type:
  "relatedTags (coreTags ident nm r) ''type'' ''type'' = map (Pair ''type'') (amb_type r)"
  by (simp add: coreTags_def related_simps del: relatedTags.simps(2))

lemma coreTags_description:
  "relatedTags (coreTags ident nm r) ''description'' ''description''
     = (case description r of None \<Rightarrow> [] | Some d \<Rightarrow> if d \<noteq> [] then [(''description'', d)] else [])"
  by (simp add: coreTags_def related_simps del: relatedTags.simps(2))

lemma coreTags_inLanguage:
  "relatedTags (coreTags ident nm r) ''inLanguage'' ''inLanguage''
     = map (Pair ''inLanguage'') (case inLanguage r of None \<Rightarrow> [] | Some ls \<Rightarrow> ls)"
  by (simp add: coreTags_def related_simps del: relatedTags.simps(2) split: option.splits)

lemma dTagValues_createTag:
  "dTagValues (createTag k v # ts) = (if k = ''d'' \<and> v \<noteq> [] then v # dTagValues ts else dTagValues ts)"
  by (simp add: dTagValues_Cons createTag_def)

lemma tTagValues_createTag:
  "tTagValues (createTag k v # ts) = (if k = ''t'' \<and> v \<noteq> [] then v # tTagValues ts else tTagValues ts)"
  by (simp add: tTagValues_Cons createTag_def)

lemma tTagValues_keywords:
  "tTagValues (forEachOpt kws (\<lambda>keyword. [createTag ''t'' (toLowerCase keyword)]))
     = filter (\<lambda>k. k \<noteq> []) (map toLowerCase (case kws of None \<Rightarrow> [] | Some ks \<Rightarrow> ks))"
proof (cases kws)
  case None
  then show ?thesis by (simp add: forEachOpt_def)
next
  case (Some ks)
  have "tTagValues (concat (map (\<lambda>keyword. [createTag ''t'' (toLowerCase keyword)]) ks))
          = filter (\<lambda>k. k \<noteq> []) (map toLowerCase ks)"
    by (induction ks) (simp_all add: tTagValues_createTag)
  with Some show ?thesis by (simp add: forEachOpt_def)
qed

lemma coreTags_dTagValues: "ident \<noteq> [] \<Longrightarrow> dTagValues (coreTags ident nm r) = [ident]"
proof -
  assume "ident \<noteq> []"
  have "allKeys (\<lambda>k. k \<noteq> ''d'')
          (map (createTag ''type'') (amb_type r) @ [createTag ''name'' nm]
           @ tagIf ''description'' (description r)
           @ forEachOpt (amb_keywords r) (\<lambda>keyword. [createTag ''t'' (toLowerCase keyword)])
           @ forEachOpt (inLanguage r) (\<lambda>lang. [createTag ''inLanguage'' lang]))"
    by (simp add: allKeys_tagIf allKeys_forEachOpt allKeys_map_createTag)
  then have "dTagValues
          (map (createTag ''type'') (amb_type r) @ [createTag ''name'' nm]
           @ tagIf ''description'' (description r)
           @ forEachOpt (amb_keywords r) (\<lambda>keyword. [createTag ''t'' (toLowerCase keyword)])
           @ forEachOpt (inLanguage r) (\<lambda>lang. [createTag ''inLanguage'' lang])) = []"
    by (rule dTagValues_none)
  with \<open>ident \<noteq> []\<close> show ?thesis by (simp add: coreTags_def dTagValues_createTag)
qed

lemma coreTags_tTagValues:
  "tTagValues (coreTags ident nm r)
     = filter (\<lambda>k. k \<noteq> []) (map toLowerCase (case amb_keywords r of None \<Rightarrow> [] | Some ks \<Rightarrow> ks))"
proof -
  have a: "tTagValues (map (createTag ''type'') (amb_type r)) = []"
    by (rule tTagValues_none) (simp add: allKeys_map_createTag)
  have b: "tTagValues (tagIf ''description'' (description r)) = []"
    by (rule tTagValues_none) (simp add: allKeys_tagIf)
  have c: "tTagValues (forEachOpt (inLanguage r) (\<lambda>lang. [createTag ''inLanguage'' lang])) = []"
    by (rule tTagValues_none) (simp add: allKeys_forEachOpt)
  show ?thesis
    by (simp add: coreTags_def tTagValues_append tTagValues_createTag a b c tTagValues_keywords)
qed

lemma flattenTags_dTagValues:
  assumes "plainLanguages r" and "ident \<noteq> []"
  shows "dTagValues (flattenTags ident nm r options) = [ident]"
  using dTagValues_block [OF restTags_keys [OF assms(1)], of options] coreTags_dTagValues [OF assms(2)]
  by (simp add: flattenTags_split dTagValues_append otherBases_def)

lemma flattenTags_tTagValues:
  assumes "plainLanguages r"
  shows "tTagValues (flattenTags ident nm r options)
     = filter (\<lambda>k. k \<noteq> []) (map toLowerCase (case amb_keywords r of None \<Rightarrow> [] | Some ks \<Rightarrow> ks))"
  using tTagValues_block [OF restTags_keys [OF assms(1)], of options]
  by (simp add: flattenTags_split tTagValues_append otherBases_def coreTags_tTagValues)

subsection \<open>Unflattening the tags of a flattened resource\<close>

lemma flatten_unflatten_succeeds:
  assumes "plainLanguages r"
  shows "\<exists>amb. unflattenTags (flattenTags ident nm r options) l = Inr amb"
proof (rule unflattenTags_safe)
  show "\<forall>k \<in> set (tagKeys (flattenTags ident nm r options)). safeKey k"
    using flattenTags_safe [OF assms, of ident nm options] by (simp add: allKeys_def)
qed

lemma flatten_unflatten_core:
  assumes plain: "plainLanguages r" and "ident \<noteq> []" and "nm \<noteq> []" and "amb_type r \<noteq> []"
    and u: "unflattenTags (flattenTags ident nm r options) l = Inr amb"
  shows "map_of amb ''id'' = Some (JStr ident)"
    and "map_of amb ''name'' = Some (JStr nm)"
    and "map_of amb ''type'' = Some (JArr (map JStr (amb_type r)))"
    and "map_of amb ''description''
           = (case description r of None \<Rightarrow> None | Some d \<Rightarrow> if d \<noteq> [] then Some (JStr d) else None)"
    and "map_of amb ''inLanguage''
           = (case inLanguage r of None \<Rightarrow> None
              | Some ls \<Rightarrow> if ls \<noteq> [] then Some (JArr (map JStr ls)) else None)"
    and "map_of amb ''keywords''
           = (if keptKeywords r = [] then None else Some (JArr (map JStr (keptKeywords r))))"
proof -
  let ?ts = "flattenTags ident nm r options"
  note keys = flattenTags_keys [OF plain, of ident nm options]
  have noid: "\<forall>k \<in> set (tagKeys ?ts). baseKeyOf k \<noteq> ''id''"
    using keys by (auto simp: allKeys_def keyOf_def coreBases_def otherBases_def)
  show "map_of amb ''id'' = Some (JStr ident)"
    using unflattenTags_id [OF u noid] flattenTags_dTagValues [OF plain assms(2), of nm options]
    by simp
  have nb: "''name'' \<notin> set otherBases" "''type'' \<notin> set otherBases"
    "''description'' \<notin> set otherBases" "''inLanguage'' \<notin> set otherBases"
    by (simp_all add: otherBases_def)
  have rn: "relatedTags ?ts ''name'' ''name'' = [(''name'', nm)]"
    using relatedTags_core [OF plain nb(1), of ident nm options] by (simp add: coreTags_name)
  show "map_of amb ''name'' = Some (JStr nm)"
    using unflattenTags_property [OF u, of "''name''"] groupValue_scalar [of "''name''" nm]
    by (simp add: rn arrayFields_def)
  have rt: "relatedTags ?ts ''type'' ''type'' = map (Pair ''type'') (amb_type r)"
    using relatedTags_core [OF plain nb(2), of ident nm options] by (simp add: coreTags_type)
  show "map_of amb ''type'' = Some (JArr (map JStr (amb_type r)))"
    using unflattenTags_property [OF u, of "''type''"] groupValue_array [of "''type''" "amb_type r"]
      assms(4)
    by (simp add: rt arrayFields_def)
  have rd: "relatedTags ?ts ''description'' ''description''
     = (case description r of None \<Rightarrow> [] | Some d \<Rightarrow> if d \<noteq> [] then [(''description'', d)] else [])"
    using relatedTags_core [OF plain nb(3), of ident nm options]
    by (simp add: coreTags_description)
  show "map_of amb ''description''
           = (case description r of None \<Rightarrow> None | Some d \<Rightarrow> if d \<noteq> [] then Some (JStr d) else None)"
    using unflattenTags_property [OF u, of "''description''"]
      groupValue_scalar [of "''description''"]
      firstPass_other [of "''description''" ?ts l]
    by (simp add: rd arrayFields_def split: option.splits)
  have rl: "relatedTags ?ts ''inLanguage'' ''inLanguage''
     = map (Pair ''inLanguage'') (case inLanguage r of None \<Rightarrow> [] | Some ls \<Rightarrow> ls)"
    using relatedTags_core [OF plain nb(4), of ident nm options]
    by (simp add: coreTags_inLanguage)
  show "map_of amb ''inLanguage''
           = (case inLanguage r of None \<Rightarrow> None
              | Some ls \<Rightarrow> if ls \<noteq> [] then Some (JArr (map JStr ls)) else None)"
    using unflattenTags_property [OF u, of "''inLanguage''"]
      groupValue_array [of "''inLanguage''"]
      firstPass_other [of "''inLanguage''" ?ts l]
    by (simp add: rl arrayFields_def split: option.splits)
  have rk: "relatedTags ?ts ''keywords'' ''keywords'' = []"
    by (rule relatedTags_block [OF keys]) (simp_all add: coreBases_def otherBases_def)
  show "map_of amb ''keywords''
           = (if keptKeywords r = [] then None else Some (JArr (map JStr (keptKeywords r))))"
    using unflattenTags_property [OF u, of "''keywords''"]
    by (simp add: rk firstPass_keywords flattenTags_tTagValues [OF plain] keptKeywords_def)
qed

lemma onlySimpleFields_plain: "onlySimpleFields r \<Longrightarrow> plainLanguages r"
  by (simp add: onlySimpleFields_def plainLanguages_def conceptsOf_def)

lemma nostrToAmb_flattened:
  assumes "unflattenTags ts (languageOrDefault dl) = Inr amb"
    and "map_of amb ''id'' = Some (JStr ident)" and "ident \<noteq> []"
    and "map_of amb ''name'' = Some (JStr nm)" and "nm \<noteq> []"
    and "map_of amb ''type'' = Some (JArr (map JStr tys))" and "tys \<noteq> []"
  shows "nostrToAmb (fst (buildEvent now options ts)) dl = Some (Inr amb)"
  using assms
  by (simp add: nostrToAmb_def validateAmb_def buildEvent_def Let_def truthyValue_def
      nonEmptyArray_def)

text \<open>
  C1, amended. For a resource with a non-empty id, a non-empty name, a non-empty list of types and none of the nested fields, flattening succeeds, unflattening the event succeeds, and the result has the id, the name and the types (in order) of the resource, its description when that is not empty, its languages (in order) when there are any, and as keywords the keywords of the resource in lower case (in order, empty ones dropped).
\<close>

theorem simple_fields_roundtrip:
  assumes "onlySimpleFields r" and "amb_id r = Some ident" and "ident \<noteq> []"
    and "amb_name r = Some nm" and "nm \<noteq> []" and "amb_type r \<noteq> []"
  shows "\<exists>ev ws amb. ambToNostr now r options = Inr (ev, ws) \<and> nostrToAmb ev dl = Some (Inr amb)
     \<and> map_of amb ''id'' = Some (JStr ident)
     \<and> map_of amb ''name'' = Some (JStr nm)
     \<and> map_of amb ''type'' = Some (JArr (map JStr (amb_type r)))
     \<and> map_of amb ''description''
           = (case description r of None \<Rightarrow> None | Some d \<Rightarrow> if d \<noteq> [] then Some (JStr d) else None)
     \<and> map_of amb ''inLanguage''
           = (case inLanguage r of None \<Rightarrow> None
              | Some ls \<Rightarrow> if ls \<noteq> [] then Some (JArr (map JStr ls)) else None)
     \<and> map_of amb ''keywords''
           = (if keptKeywords r = [] then None else Some (JArr (map JStr (keptKeywords r))))"
proof -
  let ?ts = "flattenTags ident nm r options"
  let ?l = "languageOrDefault dl"
  have plain: "plainLanguages r" using assms(1) by (rule onlySimpleFields_plain)
  obtain amb where u: "unflattenTags ?ts ?l = Inr amb"
    using flatten_unflatten_succeeds [OF plain] by blast
  note core = flatten_unflatten_core [OF plain assms(3,5,6) u]
  have ev: "ambToNostr now r options
              = Inr (fst (buildEvent now options ?ts), snd (buildEvent now options ?ts))"
    using assms(2-5) by (simp add: ambToNostr_def)
  have conv: "nostrToAmb (fst (buildEvent now options ?ts)) dl = Some (Inr amb)"
    using nostrToAmb_flattened [OF u core(1) assms(3) core(2) assms(5) core(3) assms(6)] .
  from ev conv core show ?thesis by blast
qed

text \<open>
  C1, as stated (the keywords come back exactly equal), fails at a resource with the
  keywords \<open>Math\<close>, \<open>physics\<close> and the two letters U+00C4, U+0042: the flattener emits
  them in lower case, and the keywords that come back are \<open>math\<close>, \<open>physics\<close> and the
  two letters U+00E4, U+0062.
\<close>

theorem simple_fields_roundtrip_counterexample:
  "onlySimpleFields keywordResource
   \<and> amb_keywords keywordResource = Some [''Math'', ''physics'', [CHR 0xC4, CHR ''B'']]
   \<and> ambToNostr 1700000000 keywordResource noOptions
       = Inr (buildEvent 1700000000 noOptions keywordTags)
   \<and> nostrToAmb (fst (buildEvent 1700000000 noOptions keywordTags)) None = Some (Inr keywordAmb)
   \<and> map_of keywordAmb ''keywords''
       = Some (JArr [JStr ''math'', JStr ''physics'', JStr [CHR 0xE4, CHR ''b'']])
   \<and> map_of keywordAmb ''keywords''
       \<noteq> Some (JArr [JStr ''Math'', JStr ''physics'', JStr [CHR 0xC4, CHR ''B'']])"
  by code_simp

text \<open>
  The amended C1 at that resource.
\<close>

theorem simple_fields_roundtrip_witness:
  "\<exists>ev ws amb. ambToNostr 1700000000 keywordResource noOptions = Inr (ev, ws)
     \<and> nostrToAmb ev None = Some (Inr amb)
     \<and> map_of amb ''id'' = Some (JStr ''https://example.org/c1'')
     \<and> map_of amb ''name'' = Some (JStr ''X'')
     \<and> map_of amb ''type'' = Some (JArr [JStr ''LearningResource'', JStr ''Course''])
     \<and> map_of amb ''description'' = Some (JStr ''A course'')
     \<and> map_of amb ''inLanguage'' = Some (JArr [JStr ''en'', JStr ''de''])
     \<and> map_of amb ''keywords''
         = Some (JArr [JStr ''math'', JStr ''physics'', JStr [CHR 0xE4, CHR ''b'']])"
proof -
  have s: "onlySimpleFields keywordResource"
    by (simp add: onlySimpleFields_def keywordResource_def minimalResource_def)
  have i: "amb_id keywordResource = Some ''https://example.org/c1''"
    and n: "amb_name keywordResource = Some ''X''"
    and t: "amb_type keywordResource = [''LearningResource'', ''Course'']"
    and d: "description keywordResource = Some ''A course''"
    and l: "inLanguage keywordResource = Some [''en'', ''de'']"
    by (simp_all add: keywordResource_def minimalResource_def)
  have k: "keptKeywords keywordResource = [''math'', ''physics'', [CHR 0xE4, CHR ''b'']]"
    by code_simp
  show ?thesis
    using simple_fields_roundtrip [OF s i _ n, of 1700000000 noOptions None]
    by (simp add: t d l k)
qed

section \<open>Labels in several languages\<close>

subsection \<open>The label tags of a flattened resource\<close>

lemma label_tagIf:
  "filter isAboutLabelTag (tagIf k x) = (if prefix ''about:prefLabel:'' k then tagIf k x else [])"
  by (simp add: tagIf_def isAboutLabelTag_def createTag_def split: option.splits)

lemma label_coreTags: "filter isAboutLabelTag (coreTags ident nm r) = []"
  by (simp add: coreTags_def filter_forEachOpt label_tagIf isAboutLabelTag_def createTag_def)

lemma label_creatorTags: "filter isAboutLabelTag (creatorTags a) = []"
  by (simp add: creatorTags_def affiliationTags_def label_tagIf isAboutLabelTag_def createTag_def
      split: Agent.splits option.splits)

lemma label_publisherTags: "filter isAboutLabelTag (publisherTags a) = []"
  by (simp add: publisherTags_def label_tagIf isAboutLabelTag_def createTag_def)

lemma label_agentBlockTags: "filter isAboutLabelTag (agentBlockTags r) = []"
  by (simp add: agentBlockTags_def filter_forEachOpt label_creatorTags label_publisherTags)

lemma label_conceptTags_other:
  "base \<in> {''educationalLevel'', ''audience'', ''learningResourceType'', ''conditionsOfAccess''} \<Longrightarrow>
   filter isAboutLabelTag (conceptTags base c) = []"
  by (auto simp: conceptTags_def label_tagIf isAboutLabelTag_def createTag_def filter_empty_conv
      split: option.splits)

lemma label_conceptTags_about:
  "filter isAboutLabelTag (conceptTags ''about'' c)
     = (case prefLabel c of None \<Rightarrow> []
        | Some entries \<Rightarrow> map (\<lambda>(lang, label). createTag (''about:prefLabel:'' @ lang) label) entries)"
proof -
  have "filter isAboutLabelTag
          (map (\<lambda>(lang, label). createTag (''about:prefLabel:'' @ lang) label) entries)
        = map (\<lambda>(lang, label). createTag (''about:prefLabel:'' @ lang) label) entries" for entries
    by (induction entries) (auto simp: isAboutLabelTag_def createTag_def)
  then show ?thesis
    by (simp add: conceptTags_def label_tagIf split: option.splits)
qed

lemma label_accessTags: "filter isAboutLabelTag (accessTags r) = []"
  by (simp add: accessTags_def label_tagIf label_conceptTags_other isAboutLabelTag_def createTag_def
      split: option.splits)

lemma label_trailingTags: "filter isAboutLabelTag (trailingTags r options) = []"
  by (simp add: trailingTags_def label_tagIf filter_forEachOpt isAboutLabelTag_def createTag_def)

lemma label_referenceTags:
  "base \<in> {''hasPart'', ''isPartOf''} \<Longrightarrow> filter isAboutLabelTag (referenceTags base p) = []"
  by (auto simp: referenceTags_def label_tagIf isAboutLabelTag_def createTag_def filter_empty_conv
      split: option.splits)

lemma label_relationshipTags: "filter isAboutLabelTag (relationshipTags r) = []"
  by (simp add: relationshipTags_def filter_forEachOpt label_referenceTags basedOnTags_def
      label_tagIf isAboutLabelTag_def createTag_def)

lemma label_conceptBlockTags:
  assumes "about r = Some [c]"
  shows "filter isAboutLabelTag (conceptBlockTags r) = filter isAboutLabelTag (conceptTags ''about'' c)"
proof -
  have "filter isAboutLabelTag (forEachOpt (about r) (conceptTags ''about''))
          = filter isAboutLabelTag (conceptTags ''about'' c)"
    using assms by (simp add: forEachOpt_def)
  then show ?thesis
    by (simp add: conceptBlockTags_def filter_forEachOpt label_conceptTags_other)
qed

lemma label_flattenTags:
  assumes "about r = Some [c]"
  shows "filter isAboutLabelTag (flattenTags ident nm r options)
     = (case prefLabel c of None \<Rightarrow> []
        | Some entries \<Rightarrow> map (\<lambda>(lang, label). createTag (''about:prefLabel:'' @ lang) label) entries)"
  by (simp add: flattenTags_def label_coreTags label_agentBlockTags label_accessTags
      label_trailingTags label_relationshipTags label_conceptBlockTags [OF assms]
      label_conceptTags_about)

subsection \<open>Reconstruction of a concept with labels\<close>

lemma update_absent: "map_of al k = None \<Longrightarrow> AList.update k v al = al @ [(k, v)]"
  by (induction al) (auto split: if_splits)

lemma update_same: "map_of al k = Some v \<Longrightarrow> AList.update k v al = al"
  by (induction al) (auto split: if_splits)

lemma update_twice: "AList.update k v (AList.update k v' al) = AList.update k v al"
  by (induction al) auto

lemma splitColon_label:
  "CHR '':'' \<notin> set l \<Longrightarrow> splitColon (''about:prefLabel:'' @ l) = [''about'', ''prefLabel'', l]"
  using splitColon_colon [of "''about''" "''prefLabel:'' @ l"] splitColon_colon [of "''prefLabel''" l]
  by (simp add: splitColon_plain)

lemma plainLabel_props:
  assumes "plainLabel (l, a)"
  shows "l \<noteq> []" "CHR '':'' \<notin> set l" "l \<noteq> ''prefLabel''" "l \<noteq> ''inLanguage''"
    "l \<noteq> ''__proto__''" "l \<noteq> ''hasOwnProperty''" "a \<noteq> []"
  using assms by (auto simp: plainLabel_def objectPrototypeNames_def)

lemma boundary_label:
  assumes "map_of cur ''prefLabel'' = Some (AObj acc)" and "map_of acc l = None"
    and "map_of acc ''hasOwnProperty'' = None"
  shows "boundary objs cur (TObj [''prefLabel'']) [''about'', ''prefLabel'', l]
           = Inr (objs, cur, TObj [''prefLabel''])"
proof -
  have own: "hasOwnProperty cur (TObj [''prefLabel'']) k = Inr (map_of acc k \<noteq> None)" for k
    using assms(1,3) by (simp add: hasOwnProperty_def propAt_def)
  have ne: "cur \<noteq> []" using assms(1) by auto
  have "shouldStartNewObject cur (TObj [''prefLabel'']) l = Inr False"
    using ne own [of l] own [of "''id''"] assms(2)
    by (auto simp: shouldStartNewObject_def)
  then show ?thesis by (simp add: boundary_def finalPart_def)
qed

lemma processTag_inner_leaf:
  assumes parts: "splitColon k = [''about'', ''prefLabel'', l]"
    and "plainLabel (l, a)" and "map_of cur ''prefLabel'' = Some (AObj acc)"
    and "map_of acc l = None" and "map_of acc ''hasOwnProperty'' = None"
  shows "processTag ts i (k, a) (objs, cur)
           = Inr (objs, AList.update ''prefLabel'' (AObj (acc @ [(l, AStr a)])) cur)"
proof -
  note l = plainLabel_props [OF assms(2)]
  have nav: "navigate cur (TObj []) [''prefLabel''] = Inr (cur, TObj [''prefLabel''])"
    using assms(3) by (simp add: propAt_def)
  have bnd: "boundary objs cur (TObj [''prefLabel'']) [''about'', ''prefLabel'', l]
               = Inr (objs, cur, TObj [''prefLabel''])"
    using boundary_label [OF assms(3,4,5)] .
  have wr: "writeLeaf ts i [''about'', ''prefLabel'', l] a cur (TObj [''prefLabel''])
              = Inr (AList.update ''prefLabel'' (AObj (acc @ [(l, AStr a)])) cur)"
    using l(3,4,5) assms(3,4)
    by (simp add: writeLeaf_def Let_def finalPart_def assign_def update_absent)
  show ?thesis
    using l(1,7) nav bnd wr
    by (simp add: processTag_def Let_def parts innerParts_def finalPart_def del: navigate.simps)
qed

lemma processTag_label:
  assumes "plainLabel (l, a)" and "map_of cur ''prefLabel'' = Some (AObj acc)"
    and "map_of acc l = None" and "map_of acc ''hasOwnProperty'' = None"
  shows "processTag ts i (''about:prefLabel:'' @ l, a) (objs, cur)
           = Inr (objs, AList.update ''prefLabel'' (AObj (acc @ [(l, AStr a)])) cur)"
proof (rule processTag_inner_leaf [OF _ assms])
  from assms(1) have "CHR '':'' \<notin> set l" by (simp add: plainLabel_def)
  then show "splitColon (''about:prefLabel:'' @ l) = [''about'', ''prefLabel'', l]"
    by (rule splitColon_label)
qed

lemma objectLoop_labels:
  assumes "\<forall>e \<in> set es. plainLabel e" and "distinct (map fst es)"
    and "map_of cur ''prefLabel'' = Some (AObj acc)"
    and "\<forall>e \<in> set es. map_of acc (fst e) = None"
    and "map_of acc ''hasOwnProperty'' = None"
  shows "objectLoop ts (labelTags es) i (objs, cur)
           = Inr (objs, AList.update ''prefLabel''
                          (AObj (acc @ map (\<lambda>(l, a). (l, AStr a)) es)) cur)"
  using assms
proof (induction es arbitrary: cur acc i)
  case Nil
  then show ?case by (simp add: labelTags_def update_same)
next
  case (Cons e es)
  obtain l a where e: "e = (l, a)" by (cases e)
  let ?cur = "AList.update ''prefLabel'' (AObj (acc @ [(l, AStr a)])) cur"
  have pl: "plainLabel (l, a)" using Cons.prems(1) e by simp
  have step: "processTag ts i (''about:prefLabel:'' @ l, a) (objs, cur) = Inr (objs, ?cur)"
    using Cons.prems e by (intro processTag_label) simp_all
  have pre: "map_of ?cur ''prefLabel'' = Some (AObj (acc @ [(l, AStr a)]))"
    by (simp add: update_conv')
  have fresh: "\<forall>e' \<in> set es. map_of (acc @ [(l, AStr a)]) (fst e') = None"
    using Cons.prems(2,4) e by (auto simp: map_add_def split: option.splits)
  have noshadow: "map_of (acc @ [(l, AStr a)]) ''hasOwnProperty'' = None"
    using Cons.prems(5) plainLabel_props(6) [OF pl] by (simp add: map_add_def)
  have "objectLoop ts (labelTags es) (Suc i) (objs, ?cur)
          = Inr (objs, AList.update ''prefLabel''
                  (AObj ((acc @ [(l, AStr a)]) @ map (\<lambda>(l, a). (l, AStr a)) es)) ?cur)"
    using Cons.prems(1,2) by (intro Cons.IH [OF _ _ pre fresh noshadow]) simp_all
  then show ?case
    using step e by (simp add: labelTags_def update_twice)
qed

lemma objectLoop_append:
  "objectLoop ts (xs @ ys) i st
     = (case objectLoop ts xs i st of
          Inl e \<Rightarrow> Inl e
        | Inr st' \<Rightarrow> objectLoop ts ys (i + length xs) st')"
  by (induction xs arbitrary: i st) (auto split: sum.splits)

lemma processTag_inner_leaf_first:
  assumes parts: "splitColon k = [''about'', ''prefLabel'', l]"
    and "plainLabel (l, a)" and "map_of cur ''prefLabel'' = None"
  shows "processTag ts i (k, a) (objs, cur)
           = Inr (objs, AList.update ''prefLabel'' (AObj [(l, AStr a)]) cur)"
proof -
  let ?cur = "AList.update ''prefLabel'' (AObj []) cur"
  note l = plainLabel_props [OF assms(2)]
  have "''prefLabel'' \<notin> set objectPrototypeNames" by (simp add: objectPrototypeNames_def)
  then have nav: "navigate cur (TObj []) [''prefLabel''] = Inr (?cur, TObj [''prefLabel''])"
    using assms(3) by (simp add: propAt_def)
  have pre: "map_of ?cur ''prefLabel'' = Some (AObj [])" by (simp add: update_conv')
  have bnd: "boundary objs ?cur (TObj [''prefLabel'']) [''about'', ''prefLabel'', l]
               = Inr (objs, ?cur, TObj [''prefLabel''])"
    using boundary_label [OF pre] by simp
  have wr: "writeLeaf ts i [''about'', ''prefLabel'', l] a ?cur (TObj [''prefLabel''])
              = Inr (AList.update ''prefLabel'' (AObj [(l, AStr a)]) cur)"
    using l(3,4,5) pre
    by (simp add: writeLeaf_def Let_def finalPart_def assign_def propAt_def update_twice)
  show ?thesis
    using l(1,7) nav bnd wr
    by (simp add: processTag_def Let_def parts innerParts_def finalPart_def del: navigate.simps)
qed

lemma objectLoop_labels_first:
  assumes "\<forall>e \<in> set es. plainLabel e" and "distinct (map fst es)" and "es \<noteq> []"
    and "map_of cur ''prefLabel'' = None"
  shows "objectLoop ts (labelTags es) i (objs, cur)
           = Inr (objs, cur @ [(''prefLabel'', AObj (map (\<lambda>(l, a). (l, AStr a)) es))])"
proof -
  from assms(3) obtain e es' where es: "es = e # es'" by (cases es) auto
  obtain l a where e: "e = (l, a)" by (cases e)
  let ?cur = "AList.update ''prefLabel'' (AObj [(l, AStr a)]) cur"
  have pl: "plainLabel (l, a)" using assms(1) es e by simp
  note lp = plainLabel_props [OF pl]
  have parts: "splitColon (''about:prefLabel:'' @ l) = [''about'', ''prefLabel'', l]"
    using lp(2) by (rule splitColon_label)
  have step: "processTag ts i (''about:prefLabel:'' @ l, a) (objs, cur) = Inr (objs, ?cur)"
    using processTag_inner_leaf_first [OF parts pl assms(4)] .
  have pre: "map_of ?cur ''prefLabel'' = Some (AObj [(l, AStr a)])"
    by (simp add: update_conv')
  have fresh: "\<forall>e' \<in> set es'. map_of [(l, AStr a)] (fst e') = None"
    using assms(2) es e by auto
  have noshadow: "map_of [(l, AStr a)] ''hasOwnProperty'' = None"
    using lp(6) by simp
  let ?labs = "AObj (map (\<lambda>(l, a). (l, AStr a)) es)"
  have "objectLoop ts (labelTags es') (Suc i) (objs, ?cur)
          = Inr (objs, AList.update ''prefLabel''
                  (AObj ([(l, AStr a)] @ map (\<lambda>(l, a). (l, AStr a)) es')) ?cur)"
    using assms(1,2) es by (intro objectLoop_labels [OF _ _ pre fresh noshadow]) simp_all
  then have "objectLoop ts (labelTags es') (Suc i) (objs, ?cur)
          = Inr (objs, AList.update ''prefLabel'' ?labs cur)"
    using es e by (simp add: update_twice)
  moreover have "AList.update ''prefLabel'' ?labs cur = cur @ [(''prefLabel'', ?labs)]"
    using assms(4) by (rule update_absent)
  moreover have "objectLoop ts (labelTags es) i (objs, cur)
                   = objectLoop ts (labelTags es') (Suc i) (objs, ?cur)"
    using step es e by (simp add: labelTags_def)
  ultimately show ?thesis by simp
qed

lemma relatedTags_labels:
  "relatedTags (map (\<lambda>(lang, label). createTag (''about:prefLabel:'' @ lang) label) es)
     ''about'' ''about'' = labelTags es"
  by (induction es)
     (auto simp: labelTags_def relatedTags_createTag selected_def simp del: relatedTags.simps(2))

lemma relatedTags_about_concept:
  "relatedTags (conceptTags ''about'' c) ''about'' ''about''
     = (case concept_id c of None \<Rightarrow> [] | Some v \<Rightarrow> if v \<noteq> [] then [(''about:id'', v)] else [])
       @ (case prefLabel c of None \<Rightarrow> [] | Some es \<Rightarrow> labelTags es)
       @ (case concept_type c of None \<Rightarrow> [] | Some v \<Rightarrow> if v \<noteq> [] then [(''about:type'', v)] else [])"
  using relatedTags_labels
  by (simp add: conceptTags_def relatedTags_append relatedTags_tagIf selected_def
      split: option.splits)

lemma processTag_about_id:
  "v \<noteq> [] \<Longrightarrow> processTag ts i (''about:id'', v) ([], []) = Inr ([], [(''id'', AStr v)])"
  using processTag_plain_leaf [of "''about:id''" "''about''" "''id''" v "[]" ts i "[]"] by simp

lemma processTag_about_type:
  "v \<noteq> [] \<Longrightarrow> map_of cur ''type'' = None \<Longrightarrow> map_of cur ''hasOwnProperty'' = None \<Longrightarrow>
   processTag ts i (''about:type'', v) (objs, cur) = Inr (objs, cur @ [(''type'', AStr v)])"
  using processTag_plain_leaf [of "''about:type''" "''about''" "''type''" v cur ts i objs]
  by (simp add: update_absent)

lemma toJson_label_object:
  "toJson (AObj (map (\<lambda>(l, a). (l, AStr a)) es)) = JObj (map (\<lambda>(l, a). (l, JStr a)) es)"
  by (induction es) auto

lemma objectLoop_concept:
  assumes "\<forall>e \<in> set es. plainLabel e" and "distinct (map fst es)" and "es \<noteq> []"
    and "prefLabel c = Some es"
  shows "\<exists>cur. objectLoop ts (relatedTags (conceptTags ''about'' c) ''about'' ''about'') 0 ([], [])
                 = Inr ([], cur)
           \<and> cur \<noteq> [] \<and> objectToJson cur = JObj (conceptObject c es)"
proof -
  define idP where
    "idP = (case concept_id c of None \<Rightarrow> [] | Some v \<Rightarrow> if v \<noteq> [] then [(''about:id'', v)] else [])"
  define tyP where
    "tyP = (case concept_type c of None \<Rightarrow> [] | Some v \<Rightarrow> if v \<noteq> [] then [(''about:type'', v)] else [])"
  define cur0 :: aobj where
    "cur0 = (case concept_id c of None \<Rightarrow> [] | Some v \<Rightarrow> if v \<noteq> [] then [(''id'', AStr v)] else [])"
  define labs where "labs = AObj (map (\<lambda>(l, a). (l, AStr a)) es)"
  define curL where "curL = cur0 @ [(''prefLabel'', labs)]"
  define curF where
    "curF = curL @ (case concept_type c of None \<Rightarrow> []
                    | Some v \<Rightarrow> if v \<noteq> [] then [(''type'', AStr v)] else [])"
  have rel: "relatedTags (conceptTags ''about'' c) ''about'' ''about'' = idP @ labelTags es @ tyP"
    using assms(4) by (simp add: relatedTags_about_concept idP_def tyP_def)
  have s1: "objectLoop ts idP 0 ([], []) = Inr ([], cur0)"
    by (simp add: idP_def cur0_def processTag_about_id split: option.splits)
  have c0: "map_of cur0 ''prefLabel'' = None"
    by (simp add: cur0_def split: option.splits)
  have s2: "objectLoop ts (labelTags es) (0 + length idP) ([], cur0) = Inr ([], curL)"
    unfolding curL_def labs_def using assms(1,2,3) c0 by (rule objectLoop_labels_first)
  have cL: "map_of curL ''type'' = None" "map_of curL ''hasOwnProperty'' = None"
    by (simp_all add: curL_def cur0_def map_add_def split: option.splits)
  have s3: "objectLoop ts tyP i ([], curL) = Inr ([], curF)" for i
    using cL by (simp add: tyP_def curF_def processTag_about_type split: option.splits)
  have "objectLoop ts (idP @ labelTags es @ tyP) 0 ([], []) = Inr ([], curF)"
    by (simp only: objectLoop_append s1 s2 s3 sum.case)
  moreover have "curF \<noteq> []" by (simp add: curF_def curL_def)
  moreover have "objectToJson curF = JObj (conceptObject c es)"
  proof -
    have "toJson labs = JObj (map (\<lambda>(l, a). (l, JStr a)) es)"
      unfolding labs_def by (rule toJson_label_object)
    then show ?thesis
      by (simp add: curF_def curL_def cur0_def conceptObject_def objectToJson_def
          split: option.splits)
  qed
  ultimately show ?thesis using rel by auto
qed

lemma groupValue_concept:
  assumes "\<forall>e \<in> set es. plainLabel e" and "distinct (map fst es)" and "es \<noteq> []"
    and "prefLabel c = Some es"
  shows "groupValue ''about'' (relatedTags (conceptTags ''about'' c) ''about'' ''about'')
           = Some (JArr [JObj (conceptObject c es)])"
proof -
  let ?rel = "relatedTags (conceptTags ''about'' c) ''about'' ''about''"
  obtain cur where loop: "objectLoop ?rel ?rel 0 ([], []) = Inr ([], cur)" and ne: "cur \<noteq> []"
    and js: "objectToJson cur = JObj (conceptObject c es)"
    using objectLoop_concept [OF assms] by blast
  have nested: "reconstructNestedObjects ?rel = Inr (JObj (conceptObject c es))"
    using loop ne js by (simp add: reconstructNestedObjects_def collectObjects_def)
  obtain e es' where es: "es = e # es'" using assms(3) by (cases es) auto
  have "(''about:prefLabel:'' @ fst e, snd e) \<in> set ?rel"
    using assms(4) es by (cases e) (simp add: relatedTags_about_concept labelTags_def)
  then have "\<exists>t \<in> set ?rel. CHR '':'' \<in> set (fst t)"
    by (intro bexI [of _ "(''about:prefLabel:'' @ fst e, snd e)"]) simp_all
  then have "reconstructProperty ?rel = Inr (JObj (conceptObject c es))"
    using nested by (simp add: reconstructProperty_def)
  then show ?thesis
    by (simp add: groupValue_def coerceArray_def arrayFields_def)
qed

lemma relatedTags_about_flatten:
  assumes "plainLanguages r" and "about r = Some [c]"
  shows "relatedTags (flattenTags ident nm r options) ''about'' ''about''
           = relatedTags (conceptTags ''about'' c) ''about'' ''about''"
proof -
  have r1: "relatedTags (agentBlockTags r) ''about'' ''about'' = []"
    by (rule relatedTags_block [OF agentBlockTags_keys]) simp_all
  have r2: "relatedTags (accessTags r) ''about'' ''about'' = []"
    by (rule relatedTags_block [OF accessTags_keys [OF assms(1)]]) simp_all
  have r3: "relatedTags (trailingTags r options) ''about'' ''about'' = []"
    by (rule relatedTags_block [OF trailingTags_keys]) simp_all
  have r4: "relatedTags (relationshipTags r) ''about'' ''about'' = []"
    by (rule relatedTags_block [OF relationshipTags_keys]) simp_all
  have other: "relatedTags (forEachOpt xs (conceptTags base)) ''about'' ''about'' = []"
    if "base \<in> {''educationalLevel'', ''audience'', ''learningResourceType''}"
      and "\<And>ys y. xs = Some ys \<Longrightarrow> y \<in> set ys \<Longrightarrow> plainConcept y" for xs base
  proof (rule relatedTags_block [of "[base]"])
    show "allKeys (keyOf [base]) (forEachOpt xs (conceptTags base))"
      using that by (intro allKeys_forEachOpt_in conceptTags_keys)
        (auto simp: objectPrototypeNames_def)
    show "''about'' \<notin> set [base]" using that(1) by auto
    show "CHR '':'' \<notin> set ''about''" by simp
  qed
  have r5: "relatedTags (conceptBlockTags r) ''about'' ''about''
              = relatedTags (conceptTags ''about'' c) ''about'' ''about''"
    using assms(2) other [of "''educationalLevel''" "educationalLevel r"]
      other [of "''audience''" "audience r"]
      other [of "''learningResourceType''" "learningResourceType r"]
      plainLanguages_parts(3,4,5) [OF assms(1)]
    by (simp add: conceptBlockTags_def relatedTags_append forEachOpt_def)
  have "''about'' \<notin> set coreBases" by (simp add: coreBases_def)
  then have "relatedTags (flattenTags ident nm r options) ''about'' ''about''
               = relatedTags (restTags r options) ''about'' ''about''"
    by (rule relatedTags_rest) simp
  then show ?thesis
    by (simp add: restTags_def relatedTags_append r1 r2 r3 r4 r5)
qed

lemma three_languages:
  assumes "distinct (map fst es)" and "set (map fst es) = {''en'', ''de'', ''fr''}"
    and "\<forall>e \<in> set es. snd e \<noteq> []"
  shows "length es = 3" and "\<forall>e \<in> set es. plainLabel e" and "es \<noteq> []"
proof -
  have "card (set (map fst es)) = length (map fst es)"
    using assms(1) by (rule distinct_card)
  moreover have "card (set (map fst es)) = 3" unfolding assms(2) by simp
  ultimately show "length es = 3" by simp
  then show "es \<noteq> []" by auto
  show "\<forall>e \<in> set es. plainLabel e"
  proof
    fix e assume e: "e \<in> set es"
    then have "fst e \<in> set (map fst es)" by simp
    then have "fst e \<in> {''en'', ''de'', ''fr''}" unfolding assms(2) .
    with e assms(3) show "plainLabel e"
      by (auto simp: plainLabel_def objectPrototypeNames_def)
  qed
qed

lemma distinct_label_tags:
  assumes "distinct (map fst es)"
  shows "distinct (map (\<lambda>(lang, label). createTag (''about:prefLabel:'' @ lang) label) es)"
proof -
  have "inj_on (\<lambda>(lang, label). createTag (''about:prefLabel:'' @ lang) label) (set es)"
    by (auto simp: inj_on_def createTag_def)
  moreover have "distinct es" using assms by (simp add: distinct_map)
  ultimately show ?thesis by (simp add: distinct_map)
qed

text \<open>
  C2, amended. Let a resource have a non-empty id, a non-empty name and a non-empty list
  of types, let its \<open>about\<close> list consist of one concept whose label maps exactly the
  language codes en, de and fr to non-empty texts, and let no language code of its other
  labels contain a colon or be the name of a member of \<open>Object.prototype\<close>. Then the
  flattener emits exactly three tags whose key starts with \<open>about:prefLabel:\<close>, one for
  each entry in the order of the entries, all distinct; and the unflattener applied to the
  event succeeds and reconstructs \<open>about\<close> as the list of one concept whose \<open>prefLabel\<close>
  is the mapping with exactly these three entries.
\<close>

theorem multi_language_labels:
  assumes "plainLanguages r" and "amb_id r = Some ident" and "ident \<noteq> []"
    and "amb_name r = Some nm" and "nm \<noteq> []" and "amb_type r \<noteq> []"
    and "about r = Some [c]" and "prefLabel c = Some es"
    and "distinct (map fst es)" and "set (map fst es) = {''en'', ''de'', ''fr''}"
    and "\<forall>e \<in> set es. snd e \<noteq> []"
  shows "\<exists>ev ws ts amb. ambToNostr now r options = Inr (ev, ws) \<and> tags ev = Some ts
     \<and> filter isAboutLabelTag ts
         = map (\<lambda>(lang, label). [''about:prefLabel:'' @ lang, label]) es
     \<and> length (filter isAboutLabelTag ts) = 3 \<and> distinct (filter isAboutLabelTag ts)
     \<and> nostrToAmb ev dl = Some (Inr amb)
     \<and> map_of amb ''about'' = Some (JArr [JObj (conceptObject c es)])
     \<and> map_of (conceptObject c es) ''prefLabel'' = Some (JObj (map (\<lambda>(l, a). (l, JStr a)) es))"
proof -
  let ?ts = "flattenTags ident nm r options"
  let ?l = "languageOrDefault dl"
  let ?ev = "fst (buildEvent now options ?ts)"
  note three = three_languages [OF assms(9,10,11)]
  obtain amb where u: "unflattenTags ?ts ?l = Inr amb"
    using flatten_unflatten_succeeds [OF assms(1)] by blast
  note core = flatten_unflatten_core [OF assms(1,3,5,6) u]
  have ev: "ambToNostr now r options = Inr (?ev, snd (buildEvent now options ?ts))"
    using assms(2-5) by (simp add: ambToNostr_def)
  have tg: "tags ?ev = Some ?ts" by (simp add: buildEvent_def Let_def)
  have conv: "nostrToAmb ?ev dl = Some (Inr amb)"
    using nostrToAmb_flattened [OF u core(1) assms(3) core(2) assms(5) core(3) assms(6)] .
  have labels: "filter isAboutLabelTag ?ts
                  = map (\<lambda>(lang, label). createTag (''about:prefLabel:'' @ lang) label) es"
    using label_flattenTags [OF assms(7), of ident nm options] assms(8) by simp
  have l1: "filter isAboutLabelTag ?ts = map (\<lambda>(lang, label). [''about:prefLabel:'' @ lang, label]) es"
    using labels by (simp add: createTag_def)
  have l2: "length (filter isAboutLabelTag ?ts) = 3"
    using labels three(1) by simp
  have l3: "distinct (filter isAboutLabelTag ?ts)"
    using labels distinct_label_tags [OF assms(9)] by simp
  have rel: "relatedTags ?ts ''about'' ''about''
               = relatedTags (conceptTags ''about'' c) ''about'' ''about''"
    using relatedTags_about_flatten [OF assms(1,7)] .
  have gv: "groupValue ''about'' (relatedTags ?ts ''about'' ''about'')
              = Some (JArr [JObj (conceptObject c es)])"
    unfolding rel using three(2) assms(9) three(3) assms(8) by (rule groupValue_concept)
  have ne: "relatedTags ?ts ''about'' ''about'' \<noteq> []"
    unfolding rel using assms(8) three(3)
    by (simp add: relatedTags_about_concept labelTags_def)
  have about: "map_of amb ''about'' = Some (JArr [JObj (conceptObject c es)])"
    using unflattenTags_property [OF u, of "''about''"] gv ne by simp
  have pl: "map_of (conceptObject c es) ''prefLabel'' = Some (JObj (map (\<lambda>(l, a). (l, JStr a)) es))"
    by (simp add: conceptObject_def map_add_def split: option.splits)
  from ev tg l1 l2 l3 conv about pl show ?thesis by blast
qed


text \<open>
  C2, as stated, fails for a concept whose English label is the empty string: the
  flattener emits the three tags, and the unflattener, which skips a tag with an empty
  value, reconstructs a label with the two entries de and fr only.
\<close>

theorem multi_language_labels_counterexample:
  "map (map_option (map fst) \<circ> prefLabel) (case about emptyLabelResource of Some cs \<Rightarrow> cs)
     = [Some [''en'', ''de'', ''fr'']]
   \<and> ambToNostr 1700000000 emptyLabelResource noOptions
       = Inr (buildEvent 1700000000 noOptions emptyLabelTags)
   \<and> filter isAboutLabelTag emptyLabelTags
       = [[''about:prefLabel:en'', []], [''about:prefLabel:de'', ''Informatik''],
          [''about:prefLabel:fr'', ''Informatique'']]
   \<and> nostrToAmb (fst (buildEvent 1700000000 noOptions emptyLabelTags)) None
       = Some (Inr emptyLabelAmb)
   \<and> map_of emptyLabelAmb ''about''
       = Some (JArr [JObj [(''prefLabel'', JObj [(''de'', JStr ''Informatik''),
                                                  (''fr'', JStr ''Informatique'')])]])"
  by code_simp

text \<open>
  The amended C2 at the concept with the labels Computer Science, Informatik and
  Informatique.
\<close>

theorem multi_language_labels_witness:
  "\<exists>ev ws ts amb. ambToNostr 1700000000 labelResource noOptions = Inr (ev, ws)
     \<and> tags ev = Some ts
     \<and> filter isAboutLabelTag ts
         = [[''about:prefLabel:en'', ''Computer Science''], [''about:prefLabel:de'', ''Informatik''],
            [''about:prefLabel:fr'', ''Informatique'']]
     \<and> nostrToAmb ev None = Some (Inr amb)
     \<and> map_of amb ''about''
         = Some (JArr [JObj [(''id'', JStr ''http://w3id.org/kim/hochschulfaechersystematik/n71''),
                             (''prefLabel'', JObj [(''en'', JStr ''Computer Science''),
                                                   (''de'', JStr ''Informatik''),
                                                   (''fr'', JStr ''Informatique'')]),
                             (''type'', JStr ''Concept'')]])"
proof -
  let ?c = "\<lparr>concept_id = Some ''http://w3id.org/kim/hochschulfaechersystematik/n71'',
             concept_type = Some ''Concept'',
             prefLabel = Some [(''en'', ''Computer Science''), (''de'', ''Informatik''),
                               (''fr'', ''Informatique'')]\<rparr>"
  let ?es = "[(''en'', ''Computer Science''), (''de'', ''Informatik''), (''fr'', ''Informatique'')]"
  have p: "plainLanguages labelResource"
    by (simp add: plainLanguages_def conceptsOf_def plainConcept_def labelResource_def
        minimalResource_def objectPrototypeNames_def)
  have i: "amb_id labelResource = Some ''https://example.org/c1''"
    and n: "amb_name labelResource = Some ''X''"
    and t: "amb_type labelResource \<noteq> []"
    and a: "about labelResource = Some [?c]"
    by (simp_all add: labelResource_def minimalResource_def)
  have l: "prefLabel ?c = Some ?es" by simp
  have d: "distinct (map fst ?es)" by simp
  have s: "set (map fst ?es) = {''en'', ''de'', ''fr''}" by auto
  have v: "\<forall>e \<in> set ?es. snd e \<noteq> []" by simp
  from multi_language_labels [OF p i _ n _ t a l d s v, of 1700000000 noOptions None]
  obtain ev ws ts amb where "ambToNostr 1700000000 labelResource noOptions = Inr (ev, ws)"
    and "tags ev = Some ts"
    and "filter isAboutLabelTag ts = map (\<lambda>(lang, label). [''about:prefLabel:'' @ lang, label]) ?es"
    and "nostrToAmb ev None = Some (Inr amb)"
    and "map_of amb ''about'' = Some (JArr [JObj (conceptObject ?c ?es)])"
    by auto
  then show ?thesis
    by (intro exI [of _ ev] exI [of _ ws] exI [of _ ts] exI [of _ amb])
       (simp add: conceptObject_def)
qed

end
